theory Spec2Isabelle
  imports Main "HOL-Library.Word" "HOL-Library.Monad_Syntax"
begin

unbundle bit_operations_syntax

section \<open>Data model of the bytecode compiler (chunk.c, compiler.c)\<close>

type_synonym uint8_t = "8 word"

text \<open>
  The token kinds are the indices of the \<open>rules\<close> table of compiler.c. A token is a
  kind, a pointer \<open>start\<close> into the source text with a \<open>length\<close>, and a line number.
  The \<open>length\<close> bytes found at \<open>start\<close> are the \<open>lexeme\<close>; the text that follows them, up
  to the end of the source, is \<open>trailing\<close>, so that the C string at \<open>start\<close> is
  \<open>lexeme @ trailing\<close>. An error token points at its message and a synthetic token at
  a string literal: their \<open>trailing\<close> text is empty.
\<close>

datatype TokenType =
    TOKEN_LEFT_PAREN | TOKEN_RIGHT_PAREN | TOKEN_LEFT_BRACE | TOKEN_RIGHT_BRACE
  | TOKEN_COMMA | TOKEN_DOT | TOKEN_MINUS | TOKEN_PLUS | TOKEN_SEMICOLON
  | TOKEN_SLASH | TOKEN_STAR | TOKEN_BANG | TOKEN_BANG_EQUAL | TOKEN_EQUAL
  | TOKEN_EQUAL_EQUAL | TOKEN_GREATER | TOKEN_GREATER_EQUAL | TOKEN_LESS
  | TOKEN_LESS_EQUAL | TOKEN_IDENTIFIER | TOKEN_STRING | TOKEN_NUMBER
  | TOKEN_AND | TOKEN_CLASS | TOKEN_ELSE | TOKEN_FALSE | TOKEN_FOR | TOKEN_FUN
  | TOKEN_IF | TOKEN_NIL | TOKEN_OR | TOKEN_PRINT | TOKEN_RETURN | TOKEN_SUPER
  | TOKEN_THIS | TOKEN_TRUE | TOKEN_VAR | TOKEN_WHILE | TOKEN_ERROR | TOKEN_EOF

record Token =
  ttype :: TokenType
  lexeme :: string
  trailing :: string
  line :: int

definition start :: "Token \<Rightarrow> string" where
  "start t = lexeme t @ trailing t"

text \<open>
  The opcodes that compiler.c emits. Their numbering is part of chunk.h, which is not
  among the sources: every emitting function takes the numbering \<open>enc\<close> as a parameter,
  and nothing is assumed about it.
\<close>

datatype OpCode =
    OP_CONSTANT | OP_NIL | OP_TRUE | OP_FALSE | OP_POP
  | OP_GET_LOCAL | OP_SET_LOCAL | OP_GET_GLOBAL | OP_DEFINE_GLOBAL | OP_SET_GLOBAL
  | OP_GET_UPVALUE | OP_SET_UPVALUE | OP_GET_PROPERTY | OP_SET_PROPERTY | OP_GET_SUPER
  | OP_EQUAL | OP_GREATER | OP_LESS | OP_ADD | OP_SUBSTRACT | OP_MULTIPLY | OP_DIVIDE
  | OP_NOT | OP_NEGATE | OP_PRINT | OP_JUMP | OP_JUMP_IF_FALSE | OP_LOOP | OP_CALL
  | OP_INVOKE | OP_SUPER_INVOKE | OP_CLOSURE | OP_CLOSE_UPVALUE | OP_RETURN
  | OP_CLASS | OP_INHERIT | OP_METHOD

type_synonym encoding = "OpCode \<Rightarrow> uint8_t"

text \<open>
  Runtime values that the compiler puts into a constant pool: numbers, interned strings
  and compiled functions. A number is kept as the text that \<open>strtod\<close> converts.
  A chunk owns two heap arrays, \<open>code\<close> and \<open>lines\<close>, modelled as lists whose length is
  the allocated size; \<open>count\<close> cells of each are in use. The constant pool is a value
  array (value.c), modelled as the list of its entries.
\<close>

datatype Value =
    NUMBER_VAL string
  | OBJ_STRING string
  | OBJ_FUNCTION ObjFunction
and ObjFunction =
    ObjFunction (arity: int) (upvalueCount: int) (chunk: Chunk) (fname: "string option")
and Chunk =
    Chunk (count: int) (capacity: int) (code: "uint8_t list") (lines: "int list")
          (constants: "Value list")

record Local =
  name :: Token
  depth :: int
  isCaptured :: bool

record Upvalue =
  index :: uint8_t
  isLocal :: bool

datatype FunctionType = TYPE_FUNCTION | TYPE_INITIALIZER | TYPE_METHOD | TYPE_SCRIPT

text \<open>
  A \<open>Compiler\<close> holds two arrays of \<open>UINT8_COUNT\<close> cells, \<open>locals\<close> and \<open>upvalues\<close>,
  modelled as functions from the index; \<open>localCount\<close> and the function's
  \<open>upvalueCount\<close> say how many cells are live. The \<open>enclosing\<close> link is the tail of
  the list of compilers held by the state.
\<close>

record Compiler =
  func :: ObjFunction
  ftype :: FunctionType
  locals :: "nat \<Rightarrow> Local"
  localCount :: int
  upvalues :: "nat \<Rightarrow> Upvalue"
  scopeDepth :: int

record ClassCompiler =
  hasSuperclass :: bool

record Parser =
  current :: Token
  previous :: Token
  hadError :: bool
  panicMode :: bool

text \<open>
  The globals of compiler.c. \<open>compilers\<close> is the chain that starts at the C global
  \<open>current\<close> and follows \<open>enclosing\<close>; \<open>classCompilers\<close> is the chain from
  \<open>currentClass\<close>. \<open>scanner\<close> is the stream of tokens that \<open>scanToken\<close> will still
  deliver, and \<open>diagnostics\<close> records what \<open>errorAt\<close> prints to stderr: the token and
  the message of each printed diagnostic, oldest first.
\<close>

record state =
  parser :: Parser
  scanner :: "Token list"
  compilers :: "Compiler list"
  classCompilers :: "ClassCompiler list"
  diagnostics :: "(Token \<times> string) list"

section \<open>chunk.c\<close>

definition initChunk :: Chunk where
  "initChunk = Chunk 0 0 [] [] []"

text \<open>
  Modelled from the spec: \<open>GROW_CAPACITY\<close> and \<open>GROW_ARRAY\<close> of memory.h, which is not
  among the sources. The spec says that growth is geometric; the array keeps its
  cells and the new cells are filled with a fixed value (they are written before
  they are read).
\<close>

definition GROW_CAPACITY :: "int \<Rightarrow> int" where
  "GROW_CAPACITY c = (if c < 8 then 8 else c * 2)"

definition GROW_ARRAY :: "'a \<Rightarrow> 'a list \<Rightarrow> int \<Rightarrow> int \<Rightarrow> 'a list" where
  "GROW_ARRAY fill xs oldCount newCount =
     take (nat newCount) xs @ replicate (nat newCount - length xs) fill"

definition writeChunk :: "Chunk \<Rightarrow> uint8_t \<Rightarrow> int \<Rightarrow> Chunk" where
  "writeChunk ch byte ln =
     (let ch1 =
        (if capacity ch < count ch + 1
         then (let oldCapacity = capacity ch;
                   newCapacity = GROW_CAPACITY oldCapacity
               in Chunk (count ch) newCapacity
                    (GROW_ARRAY 0 (code ch) oldCapacity newCapacity)
                    (GROW_ARRAY 0 (lines ch) oldCapacity newCapacity)
                    (constants ch))
         else ch)
      in Chunk (count ch1 + 1) (capacity ch1)
           ((code ch1)[nat (count ch1) := byte])
           ((lines ch1)[nat (count ch1) := ln])
           (constants ch1))"

text \<open>\<open>addConstant\<close>: the push and pop on the VM stack only protect the value from the
  collector.\<close>

definition addConstant :: "Chunk \<Rightarrow> Value \<Rightarrow> int \<times> Chunk" where
  "addConstant ch v =
     (let cs = constants ch @ [v]
      in (int (length cs) - 1, Chunk (count ch) (capacity ch) (code ch) (lines ch) cs))"

section \<open>compiler.c: the parser driver\<close>

definition errorAt :: "Token \<Rightarrow> string \<Rightarrow> state \<Rightarrow> state" where
  "errorAt token message s =
     (if panicMode (parser s) then s
      else s\<lparr>parser := (parser s)\<lparr>panicMode := True, hadError := True\<rparr>,
             diagnostics := diagnostics s @ [(token, message)]\<rparr>)"

definition error :: "string \<Rightarrow> state \<Rightarrow> state" where
  "error message s = errorAt (previous (parser s)) message s"

definition errorAtCurrent :: "string \<Rightarrow> state \<Rightarrow> state" where
  "errorAtCurrent message s = errorAt (current (parser s)) message s"

text \<open>
  Modelled from the spec: \<open>scanToken\<close> of the scanner, which is not among the sources.
  It delivers the next token of the stream, and \<open>TOKEN_EOF\<close> once the stream is used up.
\<close>

definition eofToken :: Token where
  "eofToken = \<lparr>ttype = TOKEN_EOF, lexeme = [], trailing = [], line = 0\<rparr>"

definition scanToken :: "Token list \<Rightarrow> Token \<times> Token list" where
  "scanToken ts = (case ts of [] \<Rightarrow> (eofToken, []) | t # ts' \<Rightarrow> (t, ts'))"

text \<open>The \<open>for (;;)\<close> loop of \<open>advance\<close>: it ends at the first token that is not
  \<open>TOKEN_ERROR\<close>, and each round takes one token from the stream.\<close>

fun advance_loop :: "Token list \<Rightarrow> state \<Rightarrow> state" where
  "advance_loop [] s = s\<lparr>parser := (parser s)\<lparr>current := fst (scanToken [])\<rparr>, scanner := []\<rparr>"
| "advance_loop (t # ts) s =
     (let s1 = s\<lparr>parser := (parser s)\<lparr>current := fst (scanToken (t # ts))\<rparr>,
                 scanner := snd (scanToken (t # ts))\<rparr>
      in if ttype (current (parser s1)) \<noteq> TOKEN_ERROR then s1
         else advance_loop ts (errorAtCurrent (start (current (parser s1))) s1))"

definition advance :: "state \<Rightarrow> state" where
  "advance s = advance_loop (scanner s) (s\<lparr>parser := (parser s)\<lparr>previous := current (parser s)\<rparr>\<rparr>)"

definition consume :: "TokenType \<Rightarrow> string \<Rightarrow> state \<Rightarrow> state" where
  "consume type message s =
     (if ttype (current (parser s)) = type then advance s else errorAtCurrent message s)"

definition check :: "TokenType \<Rightarrow> state \<Rightarrow> bool" where
  "check type s = (type = ttype (current (parser s)))"

definition match :: "TokenType \<Rightarrow> state \<Rightarrow> bool \<times> state" where
  "match type s = (if \<not> check type s then (False, s) else (True, advance s))"

section \<open>compiler.c: emitting bytes\<close>

text \<open>
  \<open>currentChunk\<close> is the chunk of the function of the compiler at the head of the
  chain. With an empty chain the C code would dereference \<open>NULL\<close>; \<open>compile\<close> installs
  a compiler before anything is emitted, and the theorems below say so where they need it.
\<close>

definition currentChunk :: "state \<Rightarrow> Chunk" where
  "currentChunk s = (case compilers s of [] \<Rightarrow> initChunk | c # cs \<Rightarrow> chunk (func c))"

definition setChunk :: "Chunk \<Rightarrow> ObjFunction \<Rightarrow> ObjFunction" where
  "setChunk ch f = ObjFunction (arity f) (upvalueCount f) ch (fname f)"

definition setCurrentChunk :: "Chunk \<Rightarrow> state \<Rightarrow> state" where
  "setCurrentChunk ch s =
     (case compilers s of [] \<Rightarrow> s
      | c # cs \<Rightarrow> s\<lparr>compilers := c\<lparr>func := setChunk ch (func c)\<rparr> # cs\<rparr>)"

definition emitByte :: "uint8_t \<Rightarrow> state \<Rightarrow> state" where
  "emitByte byte s =
     setCurrentChunk (writeChunk (currentChunk s) byte (line (previous (parser s)))) s"

definition emitJump :: "uint8_t \<Rightarrow> state \<Rightarrow> int \<times> state" where
  "emitJump instruction s =
     (let s1 = emitByte instruction s;
          s2 = emitByte 0xff s1;
          s3 = emitByte 0xff s2
      in (count (currentChunk s3) - 2, s3))"

definition emitBytes :: "uint8_t \<Rightarrow> uint8_t \<Rightarrow> state \<Rightarrow> state" where
  "emitBytes byte1 byte2 s = emitByte byte2 (emitByte byte1 s)"

definition UINT16_MAX :: int where
  "UINT16_MAX = 65535"

definition UINT8_MAX :: int where
  "UINT8_MAX = 255"

definition UINT8_COUNT :: int where
  "UINT8_COUNT = 256"

definition emitLoop :: "encoding \<Rightarrow> int \<Rightarrow> state \<Rightarrow> state" where
  "emitLoop enc loopStart s =
     (let s1 = emitByte (enc OP_LOOP) s;
          offset = count (currentChunk s1) - loopStart + 2;
          s2 = (if offset > UINT16_MAX then error ''Loop body too large.'' s1 else s1);
          s3 = emitByte (word_of_int (drop_bit 8 offset AND 0xff)) s2
      in emitByte (word_of_int (offset AND 0xff)) s3)"

definition currentType :: "state \<Rightarrow> FunctionType" where
  "currentType s = (case compilers s of [] \<Rightarrow> TYPE_SCRIPT | c # cs \<Rightarrow> ftype c)"

definition emitReturn :: "encoding \<Rightarrow> state \<Rightarrow> state" where
  "emitReturn enc s =
     (let s1 = (if currentType s = TYPE_INITIALIZER
                then emitBytes (enc OP_GET_LOCAL) 0 s
                else emitByte (enc OP_NIL) s)
      in emitByte (enc OP_RETURN) s1)"

definition makeConstant :: "Value \<Rightarrow> state \<Rightarrow> uint8_t \<times> state" where
  "makeConstant v s =
     (let (constant, ch) = addConstant (currentChunk s) v;
          s1 = setCurrentChunk ch s
      in if constant > UINT8_MAX
         then (0, error ''Too many constants in one chunks.'' s1)
         else (word_of_int constant, s1))"

definition emitConstant :: "encoding \<Rightarrow> Value \<Rightarrow> state \<Rightarrow> state" where
  "emitConstant enc v s =
     (let (c, s1) = makeConstant v s in emitBytes (enc OP_CONSTANT) c s1)"

text \<open>\<open>patchJump\<close> writes into two cells of the code array, which \<open>emitJump\<close> has
  allocated at \<open>offset\<close> and \<open>offset + 1\<close>.\<close>

definition patchJump :: "int \<Rightarrow> state \<Rightarrow> state" where
  "patchJump offset s =
     (let jump = count (currentChunk s) - offset - 2;
          s1 = (if jump > UINT16_MAX then error ''Cannot jump this far !'' s else s);
          ch = currentChunk s1;
          ch1 = Chunk (count ch) (capacity ch)
                  ((code ch)[nat offset := word_of_int (drop_bit 8 jump AND 0xff)])
                  (lines ch) (constants ch);
          ch2 = Chunk (count ch1) (capacity ch1)
                  ((code ch1)[nat (offset + 1) := word_of_int (jump AND 0xff)])
                  (lines ch1) (constants ch1)
      in setCurrentChunk ch2 s1)"

section \<open>compiler.c: compilers and scopes\<close>

text \<open>
  Modelled from the spec: \<open>newFunction\<close> of object.c, which is not among the sources:
  a function object of arity 0 with no upvalue, no name and an empty chunk.
\<close>

definition newFunction :: ObjFunction where
  "newFunction = ObjFunction 0 0 initChunk None"

text \<open>
  \<open>syntheticToken\<close> sets \<open>start\<close> and \<open>length\<close> only; the kind and the line of such a
  token are never read. The cells of \<open>locals\<close> and \<open>upvalues\<close> beyond the counts are
  never read either; they hold \<open>uninitLocal\<close> and \<open>uninitUpvalue\<close> here.
\<close>

definition syntheticToken :: "string \<Rightarrow> Token" where
  "syntheticToken text = \<lparr>ttype = TOKEN_IDENTIFIER, lexeme = text, trailing = [], line = 0\<rparr>"

definition uninitLocal :: Local where
  "uninitLocal = \<lparr>name = syntheticToken [], depth = 0, isCaptured = False\<rparr>"

definition uninitUpvalue :: Upvalue where
  "uninitUpvalue = \<lparr>index = 0, isLocal = False\<rparr>"

definition updCurrent :: "(Compiler \<Rightarrow> Compiler) \<Rightarrow> state \<Rightarrow> state" where
  "updCurrent f s = (case compilers s of [] \<Rightarrow> s | c # cs \<Rightarrow> s\<lparr>compilers := f c # cs\<rparr>)"

definition initCompiler :: "FunctionType \<Rightarrow> state \<Rightarrow> state" where
  "initCompiler type s =
     (let f = newFunction;
          f1 = (if type \<noteq> TYPE_SCRIPT
                then ObjFunction (arity f) (upvalueCount f) (chunk f)
                       (Some (lexeme (previous (parser s))))
                else f);
          local = \<lparr>name = syntheticToken (if type \<noteq> TYPE_FUNCTION then ''this'' else []),
                   depth = 0, isCaptured = False\<rparr>;
          compiler = \<lparr>func = f1, ftype = type,
                      locals = (\<lambda>i. uninitLocal)(0 := local), localCount = 1,
                      upvalues = (\<lambda>i. uninitUpvalue), scopeDepth = 0\<rparr>
      in s\<lparr>compilers := compiler # compilers s\<rparr>)"

text \<open>\<open>endCompiler\<close> returns the compiler that it unlinks; its \<open>func\<close> is the function
  that the C code returns.\<close>

definition endCompiler :: "encoding \<Rightarrow> state \<Rightarrow> (Compiler \<times> state) option" where
  "endCompiler enc s =
     (let s1 = emitReturn enc s
      in case compilers s1 of [] \<Rightarrow> None
         | c # cs \<Rightarrow> Some (c, s1\<lparr>compilers := cs\<rparr>))"

definition beginScope :: "state \<Rightarrow> state" where
  "beginScope s = updCurrent (\<lambda>c. c\<lparr>scopeDepth := scopeDepth c + 1\<rparr>) s"

definition topLocal :: "Compiler \<Rightarrow> Local" where
  "topLocal c = locals c (nat (localCount c - 1))"

function endScope_loop :: "encoding \<Rightarrow> state \<Rightarrow> state" where
  "endScope_loop enc s =
     (case compilers s of [] \<Rightarrow> s
      | c # cs \<Rightarrow>
          if localCount c > 0 \<and> depth (topLocal c) > scopeDepth c
          then endScope_loop enc
                 (updCurrent (\<lambda>c. c\<lparr>localCount := localCount c - 1\<rparr>)
                    (emitByte (if isCaptured (topLocal c) then enc OP_CLOSE_UPVALUE
                               else enc OP_POP) s))
          else s)"
  by pat_completeness auto
termination
  by (relation "measure (\<lambda>(enc, s). case compilers s of [] \<Rightarrow> 0 | c # cs \<Rightarrow> nat (localCount c))")
     (auto simp: updCurrent_def emitByte_def setCurrentChunk_def split: list.splits)

declare endScope_loop.simps [simp del]

definition endScope :: "encoding \<Rightarrow> state \<Rightarrow> state" where
  "endScope enc s = endScope_loop enc (updCurrent (\<lambda>c. c\<lparr>scopeDepth := scopeDepth c - 1\<rparr>) s)"

section \<open>compiler.c: resolving names\<close>

definition identifiersEqual :: "Token \<Rightarrow> Token \<Rightarrow> bool" where
  "identifiersEqual a b = (length (lexeme a) = length (lexeme b) \<and> lexeme a = lexeme b)"

definition identifierConstant :: "Token \<Rightarrow> state \<Rightarrow> uint8_t \<times> state" where
  "identifierConstant nm s = makeConstant (OBJ_STRING (lexeme nm)) s"

text \<open>The loop of \<open>resolveLocal\<close>, from \<open>i = localCount - 1\<close> down to 0; the argument
  \<open>Suc i\<close> is the number of cells still to visit.\<close>

primrec resolveLocal_loop :: "Compiler \<Rightarrow> Token \<Rightarrow> nat \<Rightarrow> state \<Rightarrow> int \<times> state" where
  "resolveLocal_loop compiler nm 0 s = (-1, s)"
| "resolveLocal_loop compiler nm (Suc i) s =
     (let local = locals compiler i
      in if identifiersEqual (name local) nm
         then (int i, if depth local = -1
                      then error ''Can't read local variable in its own initializer.'' s
                      else s)
         else resolveLocal_loop compiler nm i s)"

definition resolveLocal :: "Compiler \<Rightarrow> Token \<Rightarrow> state \<Rightarrow> int \<times> state" where
  "resolveLocal compiler nm s = resolveLocal_loop compiler nm (nat (localCount compiler)) s"

definition setUpvalueCount :: "int \<Rightarrow> ObjFunction \<Rightarrow> ObjFunction" where
  "setUpvalueCount n f = ObjFunction (arity f) n (chunk f) (fname f)"

text \<open>The loop of \<open>addUpvalue\<close> returns the first \<open>i < upvalueCount\<close> whose cell holds
  the same index and flag.\<close>

definition addUpvalue :: "Compiler \<Rightarrow> uint8_t \<Rightarrow> bool \<Rightarrow> state \<Rightarrow> int \<times> Compiler \<times> state" where
  "addUpvalue compiler idx isLoc s =
     (let n = upvalueCount (func compiler)
      in case find (\<lambda>i. index (upvalues compiler i) = idx \<and> isLocal (upvalues compiler i) = isLoc)
                [0..<nat n] of
           Some i \<Rightarrow> (int i, compiler, s)
         | None \<Rightarrow>
             if n = UINT8_COUNT
             then (0, compiler, error ''Too many closure variable in function.'' s)
             else (n,
                   compiler\<lparr>upvalues := (upvalues compiler)(nat n := \<lparr>index = idx, isLocal = isLoc\<rparr>),
                            func := setUpvalueCount (n + 1) (func compiler)\<rparr>,
                   s))"

text \<open>
  \<open>resolveUpvalue\<close> works on a compiler and the chain of its enclosing compilers, and
  returns the chain as it has changed it. The state is passed for the diagnostics of
  \<open>resolveLocal\<close> and \<open>addUpvalue\<close>.
\<close>

fun resolveUpvalue :: "Compiler list \<Rightarrow> Token \<Rightarrow> state \<Rightarrow> int \<times> Compiler list \<times> state" where
  "resolveUpvalue [] nm s = (-1, [], s)"
| "resolveUpvalue [compiler] nm s = (-1, [compiler], s)"
| "resolveUpvalue (compiler # enclosing # rest) nm s =
     (let (local, s1) = resolveLocal enclosing nm s
      in if local \<noteq> -1
         then (let enclosing1 =
                     enclosing\<lparr>locals := (locals enclosing)
                        (nat local := (locals enclosing (nat local))\<lparr>isCaptured := True\<rparr>)\<rparr>;
                   (i, compiler1, s2) = addUpvalue compiler (word_of_int local) True s1
               in (i, compiler1 # enclosing1 # rest, s2))
         else (let (upvalue, chain, s2) = resolveUpvalue (enclosing # rest) nm s1
               in if upvalue \<noteq> -1
                  then (let (i, compiler1, s3) = addUpvalue compiler (word_of_int upvalue) False s2
                        in (i, compiler1 # chain, s3))
                  else (-1, compiler # chain, s2)))"

definition addLocal :: "Token \<Rightarrow> state \<Rightarrow> state" where
  "addLocal nm s =
     (case compilers s of [] \<Rightarrow> s
      | c # cs \<Rightarrow>
          if localCount c = UINT8_COUNT
          then error ''Too many local variables in function (max 256).'' s
          else s\<lparr>compilers :=
                  c\<lparr>locals := (locals c)(nat (localCount c) :=
                                 \<lparr>name = nm, depth = -1, isCaptured = False\<rparr>),
                    localCount := localCount c + 1\<rparr> # cs\<rparr>)"

text \<open>The loop of \<open>declareVariable\<close>, from \<open>i = localCount - 1\<close> down to 0, left by
  \<open>break\<close> at the first local of an outer scope.\<close>

primrec declareVariable_loop :: "Compiler \<Rightarrow> Token \<Rightarrow> nat \<Rightarrow> state \<Rightarrow> state" where
  "declareVariable_loop c nm 0 s = s"
| "declareVariable_loop c nm (Suc i) s =
     (let local = locals c i
      in if depth local \<noteq> -1 \<and> depth local < scopeDepth c then s
         else declareVariable_loop c nm i
                (if identifiersEqual nm (name local)
                 then error ''Already a variable with this name in this scope.'' s
                 else s))"

definition declareVariable :: "state \<Rightarrow> state" where
  "declareVariable s =
     (case compilers s of [] \<Rightarrow> s
      | c # cs \<Rightarrow>
          if scopeDepth c = 0 then s
          else (let nm = previous (parser s)
                in addLocal nm (declareVariable_loop c nm (nat (localCount c)) s)))"

definition currentScopeDepth :: "state \<Rightarrow> int" where
  "currentScopeDepth s = (case compilers s of [] \<Rightarrow> 0 | c # cs \<Rightarrow> scopeDepth c)"

definition parseVariable :: "string \<Rightarrow> state \<Rightarrow> uint8_t \<times> state" where
  "parseVariable errorMessage s =
     (let s1 = declareVariable (consume TOKEN_IDENTIFIER errorMessage s)
      in if currentScopeDepth s1 > 0 then (0, s1)
         else identifierConstant (previous (parser s1)) s1)"

definition markInitialized :: "state \<Rightarrow> state" where
  "markInitialized s =
     (case compilers s of [] \<Rightarrow> s
      | c # cs \<Rightarrow>
          if scopeDepth c = 0 then s
          else s\<lparr>compilers :=
                  c\<lparr>locals := (locals c)(nat (localCount c - 1) :=
                                 (topLocal c)\<lparr>depth := scopeDepth c\<rparr>)\<rparr> # cs\<rparr>)"

definition defineVariable :: "encoding \<Rightarrow> uint8_t \<Rightarrow> state \<Rightarrow> state" where
  "defineVariable enc global s =
     (if currentScopeDepth s > 0 then markInitialized s
      else emitBytes (enc OP_DEFINE_GLOBAL) global s)"

section \<open>compiler.c: the table of parse rules\<close>

text \<open>The enumeration \<open>Precedence\<close>, with the integer values that C gives to its
  members: the code compares them and adds 1 to them.\<close>

type_synonym Precedence = int

definition PREC_NONE :: Precedence where "PREC_NONE = 0"
definition PREC_ASSIGNMENT :: Precedence where "PREC_ASSIGNMENT = 1"
definition PREC_OR :: Precedence where "PREC_OR = 2"
definition PREC_AND :: Precedence where "PREC_AND = 3"
definition PREC_EQUALITY :: Precedence where "PREC_EQUALITY = 4"
definition PREC_COMPARISON :: Precedence where "PREC_COMPARISON = 5"
definition PREC_TERM :: Precedence where "PREC_TERM = 6"
definition PREC_FACTOR :: Precedence where "PREC_FACTOR = 7"
definition PREC_UNARY :: Precedence where "PREC_UNARY = 8"
definition PREC_CALL :: Precedence where "PREC_CALL = 9"
definition PREC_PRIMARY :: Precedence where "PREC_PRIMARY = 10"

text \<open>A \<open>ParseFn\<close> is a pointer to one of the handlers below; \<open>None\<close> is \<open>NULL\<close>.\<close>

datatype ParseFn =
    fn_grouping | fn_call | fn_dot | fn_unary | fn_binary | fn_variable | fn_string
  | fn_number | fn_and | fn_or | fn_literal | fn_super | fn_this

record ParseRule =
  prefixRule :: "ParseFn option"
  infixRule :: "ParseFn option"
  precedence :: Precedence

definition mkRule :: "ParseFn option \<Rightarrow> ParseFn option \<Rightarrow> Precedence \<Rightarrow> ParseRule" where
  "mkRule p i pr = \<lparr>prefixRule = p, infixRule = i, precedence = pr\<rparr>"

fun getRule :: "TokenType \<Rightarrow> ParseRule" where
  "getRule TOKEN_LEFT_PAREN = mkRule (Some fn_grouping) (Some fn_call) PREC_CALL"
| "getRule TOKEN_RIGHT_PAREN = mkRule None None PREC_NONE"
| "getRule TOKEN_LEFT_BRACE = mkRule None None PREC_NONE"
| "getRule TOKEN_RIGHT_BRACE = mkRule None None PREC_NONE"
| "getRule TOKEN_COMMA = mkRule None None PREC_NONE"
| "getRule TOKEN_DOT = mkRule None (Some fn_dot) PREC_CALL"
| "getRule TOKEN_MINUS = mkRule (Some fn_unary) (Some fn_binary) PREC_TERM"
| "getRule TOKEN_PLUS = mkRule None (Some fn_binary) PREC_TERM"
| "getRule TOKEN_SEMICOLON = mkRule None None PREC_NONE"
| "getRule TOKEN_SLASH = mkRule None (Some fn_binary) PREC_FACTOR"
| "getRule TOKEN_STAR = mkRule None (Some fn_binary) PREC_FACTOR"
| "getRule TOKEN_BANG = mkRule (Some fn_unary) None PREC_NONE"
| "getRule TOKEN_BANG_EQUAL = mkRule None (Some fn_binary) PREC_EQUALITY"
| "getRule TOKEN_EQUAL = mkRule None None PREC_NONE"
| "getRule TOKEN_EQUAL_EQUAL = mkRule None (Some fn_binary) PREC_EQUALITY"
| "getRule TOKEN_GREATER = mkRule None (Some fn_binary) PREC_COMPARISON"
| "getRule TOKEN_GREATER_EQUAL = mkRule None (Some fn_binary) PREC_COMPARISON"
| "getRule TOKEN_LESS = mkRule None (Some fn_binary) PREC_COMPARISON"
| "getRule TOKEN_LESS_EQUAL = mkRule None (Some fn_binary) PREC_COMPARISON"
| "getRule TOKEN_IDENTIFIER = mkRule (Some fn_variable) None PREC_NONE"
| "getRule TOKEN_STRING = mkRule (Some fn_string) None PREC_NONE"
| "getRule TOKEN_NUMBER = mkRule (Some fn_number) None PREC_NONE"
| "getRule TOKEN_AND = mkRule None (Some fn_and) PREC_AND"
| "getRule TOKEN_CLASS = mkRule None None PREC_NONE"
| "getRule TOKEN_ELSE = mkRule None None PREC_NONE"
| "getRule TOKEN_FALSE = mkRule (Some fn_literal) None PREC_NONE"
| "getRule TOKEN_FOR = mkRule None None PREC_NONE"
| "getRule TOKEN_FUN = mkRule None None PREC_NONE"
| "getRule TOKEN_IF = mkRule None None PREC_NONE"
| "getRule TOKEN_NIL = mkRule (Some fn_literal) None PREC_NONE"
| "getRule TOKEN_OR = mkRule None (Some fn_or) PREC_OR"
| "getRule TOKEN_PRINT = mkRule None None PREC_NONE"
| "getRule TOKEN_RETURN = mkRule None None PREC_NONE"
| "getRule TOKEN_SUPER = mkRule (Some fn_super) None PREC_NONE"
| "getRule TOKEN_THIS = mkRule (Some fn_this) None PREC_NONE"
| "getRule TOKEN_TRUE = mkRule (Some fn_literal) None PREC_NONE"
| "getRule TOKEN_VAR = mkRule None None PREC_NONE"
| "getRule TOKEN_WHILE = mkRule None None PREC_NONE"
| "getRule TOKEN_ERROR = mkRule None None PREC_NONE"
| "getRule TOKEN_EOF = mkRule None None PREC_NONE"

section \<open>compiler.c: expressions\<close>

text \<open>
  The handlers of the table and \<open>parsePrecendence\<close> call each other. The recursion is
  cut at \<open>parsePrecendence\<close>: a handler takes as its parameter \<open>pp\<close> the function that
  it calls as \<open>parsePrecendence\<close>, and \<open>parsePrecendence\<close> itself is defined by
  recursion on a bound \<open>n\<close> on the depth of the calls and on the rounds of each loop.
  The result \<open>None\<close> says that the bound was too small, or that the C code calls a
  \<open>NULL\<close> handler or reads through the \<open>NULL\<close> compiler.
\<close>

type_synonym parse = "Precedence \<Rightarrow> state \<Rightarrow> state option"

definition expression :: "parse \<Rightarrow> state \<Rightarrow> state option" where
  "expression pp s = pp PREC_ASSIGNMENT s"

text \<open>\<open>canAssign && match(type)\<close>: the token is looked at only when \<open>canAssign\<close> holds.\<close>

definition canAssign_match :: "bool \<Rightarrow> TokenType \<Rightarrow> state \<Rightarrow> bool \<times> state" where
  "canAssign_match canAssign type s = (if canAssign then match type s else (False, s))"

definition binary :: "parse \<Rightarrow> encoding \<Rightarrow> bool \<Rightarrow> state \<Rightarrow> state option" where
  "binary pp enc canAssign s =
     (let operatorType = ttype (previous (parser s));
          rule = getRule operatorType
      in do {
        s1 \<leftarrow> pp (precedence rule + 1) s;
        Some (if operatorType = TOKEN_BANG_EQUAL then emitBytes (enc OP_EQUAL) (enc OP_NOT) s1
              else if operatorType = TOKEN_EQUAL_EQUAL then emitByte (enc OP_EQUAL) s1
              else if operatorType = TOKEN_GREATER then emitByte (enc OP_GREATER) s1
              else if operatorType = TOKEN_GREATER_EQUAL then emitBytes (enc OP_LESS) (enc OP_NOT) s1
              else if operatorType = TOKEN_LESS then emitByte (enc OP_LESS) s1
              else if operatorType = TOKEN_LESS_EQUAL then emitBytes (enc OP_GREATER) (enc OP_NOT) s1
              else if operatorType = TOKEN_PLUS then emitByte (enc OP_ADD) s1
              else if operatorType = TOKEN_MINUS then emitByte (enc OP_SUBSTRACT) s1
              else if operatorType = TOKEN_STAR then emitByte (enc OP_MULTIPLY) s1
              else if operatorType = TOKEN_SLASH then emitByte (enc OP_DIVIDE) s1
              else s1)
      })"

text \<open>The \<open>do ... while (match(TOKEN_COMMA))\<close> loop of \<open>argumentList\<close>; \<open>argCount\<close> is a
  \<open>uint8_t\<close>, and \<open>argCount++\<close> wraps around.\<close>

primrec argumentList_loop :: "nat \<Rightarrow> parse \<Rightarrow> uint8_t \<Rightarrow> state \<Rightarrow> (uint8_t \<times> state) option" where
  "argumentList_loop 0 pp argCount s = None"
| "argumentList_loop (Suc n) pp argCount s =
     do {
       s1 \<leftarrow> expression pp s;
       let s2 = (if argCount = 255 then error ''Can't have more than 255 arguments.'' s1 else s1);
       let argCount1 = argCount + 1;
       let (m, s3) = match TOKEN_COMMA s2;
       if m then argumentList_loop n pp argCount1 s3 else Some (argCount1, s3)
     }"

definition argumentList :: "nat \<Rightarrow> parse \<Rightarrow> state \<Rightarrow> (uint8_t \<times> state) option" where
  "argumentList n pp s =
     do {
       (argCount, s1) \<leftarrow> (if \<not> check TOKEN_RIGHT_PAREN s then argumentList_loop n pp 0 s
                           else Some (0, s));
       Some (argCount, consume TOKEN_RIGHT_PAREN ''Expect ')' after arguments.'' s1)
     }"

definition call :: "nat \<Rightarrow> parse \<Rightarrow> encoding \<Rightarrow> bool \<Rightarrow> state \<Rightarrow> state option" where
  "call n pp enc canAssign s =
     do {
       (argCount, s1) \<leftarrow> argumentList n pp s;
       Some (emitBytes (enc OP_CALL) argCount s1)
     }"

definition dot :: "nat \<Rightarrow> parse \<Rightarrow> encoding \<Rightarrow> bool \<Rightarrow> state \<Rightarrow> state option" where
  "dot n pp enc canAssign s =
     (let s1 = consume TOKEN_IDENTIFIER ''Expect property name after '.'.'' s;
          (nm, s2) = identifierConstant (previous (parser s1)) s1;
          (m, s3) = canAssign_match canAssign TOKEN_EQUAL s2
      in if m
         then do {
           s4 \<leftarrow> expression pp s3;
           Some (emitBytes (enc OP_SET_PROPERTY) nm s4)
         }
         else (let (m2, s4) = match TOKEN_LEFT_PAREN s3
               in if m2
                  then do {
                    (argCount, s5) \<leftarrow> argumentList n pp s4;
                    Some (emitByte argCount (emitBytes (enc OP_INVOKE) nm s5))
                  }
                  else Some (emitBytes (enc OP_GET_PROPERTY) nm s4)))"

definition literal :: "encoding \<Rightarrow> bool \<Rightarrow> state \<Rightarrow> state" where
  "literal enc canAssign s =
     (let operatorType = ttype (previous (parser s))
      in if operatorType = TOKEN_NIL then emitByte (enc OP_NIL) s
         else if operatorType = TOKEN_TRUE then emitByte (enc OP_TRUE) s
         else if operatorType = TOKEN_FALSE then emitByte (enc OP_FALSE) s
         else s)"

definition grouping :: "parse \<Rightarrow> bool \<Rightarrow> state \<Rightarrow> state option" where
  "grouping pp canAssign s =
     do {
       s1 \<leftarrow> expression pp s;
       Some (consume TOKEN_RIGHT_PAREN ''Expect ')' after expression.'' s1)
     }"

text \<open>
  \<open>strtod\<close> belongs to the C library. It skips white space and converts the longest
  prefix of what follows that is a number in the sense of the C standard (7.22.1.3): an
  optional sign, and then a decimal number with an optional exponent, a hexadecimal
  number after \<open>0x\<close> with an optional binary exponent, an infinity or a NaN. A number
  is kept here as the text that is converted, which is empty when nothing is converted
  and \<open>strtod\<close> returns zero. \<open>number\<close> hands it \<open>start\<close> of the token, a text that does
  not end where the token ends.
\<close>

definition isDigit :: "char \<Rightarrow> bool" where
  "isDigit c \<longleftrightarrow> c \<in> set ''0123456789''"

definition isHexDigit :: "char \<Rightarrow> bool" where
  "isHexDigit c \<longleftrightarrow> c \<in> set ''0123456789abcdefABCDEF''"

definition isNChar :: "char \<Rightarrow> bool" where
  "isNChar c \<longleftrightarrow>
     c \<in> set ''0123456789_abcdefghijklmnopqrstuvwxyzABCDEFGHIJKLMNOPQRSTUVWXYZ''"

definition isSpace :: "char \<Rightarrow> bool" where
  "isSpace c \<longleftrightarrow> c \<in> set [CHR '' '', CHR 0x09, CHR 0x0A, CHR 0x0B, CHR 0x0C, CHR 0x0D]"

fun prefixNoCase :: "(char \<times> char) list \<Rightarrow> string \<Rightarrow> bool" where
  "prefixNoCase [] xs = True"
| "prefixNoCase ((l, u) # ps) [] = False"
| "prefixNoCase ((l, u) # ps) (c # cs) = ((c = l \<or> c = u) \<and> prefixNoCase ps cs)"

definition exponent :: "string \<Rightarrow> string \<Rightarrow> string" where
  "exponent marks xs =
     (case xs of [] \<Rightarrow> []
      | c # r \<Rightarrow>
          if c \<in> set marks
          then (let sg = (case r of [] \<Rightarrow> [] | d # r' \<Rightarrow> if d \<in> set ''+-'' then [d] else []);
                    ds = takeWhile isDigit (drop (length sg) r)
                in if ds = [] then [] else c # sg @ ds)
          else [])"

definition mantissa :: "(char \<Rightarrow> bool) \<Rightarrow> string \<Rightarrow> string" where
  "mantissa dig xs =
     (let ip = takeWhile dig xs;
          fp = (case dropWhile dig xs of [] \<Rightarrow> []
                | c # r \<Rightarrow> if c = CHR ''.'' then c # takeWhile dig r else [])
      in if ip = [] \<and> length fp \<le> 1 then [] else ip @ fp)"

definition floating :: "(char \<Rightarrow> bool) \<Rightarrow> string \<Rightarrow> string \<Rightarrow> string" where
  "floating dig marks xs =
     (let m = mantissa dig xs
      in if m = [] then [] else m @ exponent marks (drop (length m) xs))"

definition nanChars :: "string \<Rightarrow> string" where
  "nanChars xs =
     (case xs of [] \<Rightarrow> []
      | c # r \<Rightarrow>
          if c = CHR 0x28
          then (let ns = takeWhile isNChar r
                in case drop (length ns) r of [] \<Rightarrow> []
                   | d # u \<Rightarrow> if d = CHR 0x29 then c # ns @ [d] else [])
          else [])"

definition unsignedNumber :: "string \<Rightarrow> string" where
  "unsignedNumber xs =
     (if prefixNoCase (zip ''infinity'' ''INFINITY'') xs then take 8 xs
      else if prefixNoCase (zip ''inf'' ''INF'') xs then take 3 xs
      else if prefixNoCase (zip ''nan'' ''NAN'') xs then take 3 xs @ nanChars (drop 3 xs)
      else if prefixNoCase (zip ''0x'' ''0X'') xs \<and> floating isHexDigit ''pP'' (drop 2 xs) \<noteq> []
      then take 2 xs @ floating isHexDigit ''pP'' (drop 2 xs)
      else floating isDigit ''eE'' xs)"

definition strtod :: "string \<Rightarrow> string" where
  "strtod xs =
     (let ys = dropWhile isSpace xs;
          sg = (case ys of [] \<Rightarrow> [] | c # r \<Rightarrow> if c \<in> set ''+-'' then [c] else []);
          u = unsignedNumber (drop (length sg) ys)
      in if u = [] then [] else sg @ u)"

definition number :: "encoding \<Rightarrow> bool \<Rightarrow> state \<Rightarrow> state" where
  "number enc canAssign s =
     emitConstant enc (NUMBER_VAL (strtod (start (previous (parser s))))) s"

definition or_handler :: "parse \<Rightarrow> encoding \<Rightarrow> bool \<Rightarrow> state \<Rightarrow> state option" where
  "or_handler pp enc canAssign s =
     (let (elseJump, s1) = emitJump (enc OP_JUMP_IF_FALSE) s;
          (endJump, s2) = emitJump (enc OP_JUMP) s1;
          s3 = patchJump elseJump s2;
          s4 = emitByte (enc OP_POP) s3
      in do {
        s5 \<leftarrow> pp PREC_OR s4;
        Some (patchJump endJump s5)
      })"

text \<open>\<open>string\<close> copies the lexeme without its first and its last character.\<close>

definition string_handler :: "encoding \<Rightarrow> bool \<Rightarrow> state \<Rightarrow> state" where
  "string_handler enc canAssign s =
     (let lx = lexeme (previous (parser s))
      in emitConstant enc (OBJ_STRING (take (length lx - 2) (drop 1 lx))) s)"

definition namedVariable :: "parse \<Rightarrow> encoding \<Rightarrow> Token \<Rightarrow> bool \<Rightarrow> state \<Rightarrow> state option" where
  "namedVariable pp enc nm canAssign s =
     (case compilers s of [] \<Rightarrow> None
      | c # cs \<Rightarrow>
         (let (arg, s1) = resolveLocal c nm s;
              (getOp, setOp, arg1, s2) =
                (if arg \<noteq> -1 then (OP_GET_LOCAL, OP_SET_LOCAL, word_of_int arg, s1)
                 else (let (arg2, chain, s3) = resolveUpvalue (compilers s1) nm s1;
                           s4 = s3\<lparr>compilers := chain\<rparr>
                       in if arg2 \<noteq> -1
                          then (OP_GET_UPVALUE, OP_SET_UPVALUE, word_of_int arg2, s4)
                          else (let (arg3, s5) = identifierConstant nm s4
                                in (OP_GET_GLOBAL, OP_SET_GLOBAL, arg3, s5))));
              (m, s6) = canAssign_match canAssign TOKEN_EQUAL s2
          in if m
             then do {
               s7 \<leftarrow> expression pp s6;
               Some (emitBytes (enc setOp) arg1 s7)
             }
             else Some (emitBytes (enc getOp) arg1 s6)))"

definition variable :: "parse \<Rightarrow> encoding \<Rightarrow> bool \<Rightarrow> state \<Rightarrow> state option" where
  "variable pp enc canAssign s = namedVariable pp enc (previous (parser s)) canAssign s"

definition super_handler :: "nat \<Rightarrow> parse \<Rightarrow> encoding \<Rightarrow> bool \<Rightarrow> state \<Rightarrow> state option" where
  "super_handler n pp enc canAssign s =
     (let s1 = (case classCompilers s of
                  [] \<Rightarrow> error ''Can't use 'super' outside of a class.'' s
                | cc # ccs \<Rightarrow>
                    if \<not> hasSuperclass cc
                    then error ''Can't use 'super' in a class with no superclass.'' s
                    else s);
          s2 = consume TOKEN_DOT ''Expect '.' after 'super'.'' s1;
          s3 = consume TOKEN_IDENTIFIER ''Expect superclass method name.'' s2;
          (nm, s4) = identifierConstant (previous (parser s3)) s3
      in do {
        s5 \<leftarrow> namedVariable pp enc (syntheticToken ''this'') False s4;
        let (m, s6) = match TOKEN_LEFT_PAREN s5;
        if m
        then do {
          (argCount, s7) \<leftarrow> argumentList n pp s6;
          s8 \<leftarrow> namedVariable pp enc (syntheticToken ''super'') False s7;
          Some (emitByte argCount (emitBytes (enc OP_SUPER_INVOKE) nm s8))
        }
        else do {
          s7 \<leftarrow> namedVariable pp enc (syntheticToken ''super'') False s6;
          Some (emitBytes (enc OP_GET_SUPER) nm s7)
        }
      })"

definition this_handler :: "parse \<Rightarrow> encoding \<Rightarrow> bool \<Rightarrow> state \<Rightarrow> state option" where
  "this_handler pp enc canAssign s =
     (case classCompilers s of
        [] \<Rightarrow> Some (error ''Can't use 'this' outside of a class.'' s)
      | cc # ccs \<Rightarrow> variable pp enc False s)"

definition unary :: "parse \<Rightarrow> encoding \<Rightarrow> bool \<Rightarrow> state \<Rightarrow> state option" where
  "unary pp enc canAssign s =
     (let operatorType = ttype (previous (parser s))
      in do {
        s1 \<leftarrow> pp PREC_UNARY s;
        Some (if operatorType = TOKEN_BANG then emitByte (enc OP_NOT) s1
              else if operatorType = TOKEN_MINUS then emitByte (enc OP_NEGATE) s1
              else s1)
      })"

definition and_handler :: "parse \<Rightarrow> encoding \<Rightarrow> bool \<Rightarrow> state \<Rightarrow> state option" where
  "and_handler pp enc canAssign s =
     (let (endJump, s1) = emitJump (enc OP_JUMP_IF_FALSE) s;
          s2 = emitByte (enc OP_POP) s1
      in do {
        s3 \<leftarrow> pp PREC_AND s2;
        Some (patchJump endJump s3)
      })"

text \<open>The call of a handler through its pointer.\<close>

definition callParseFn ::
  "nat \<Rightarrow> parse \<Rightarrow> encoding \<Rightarrow> ParseFn \<Rightarrow> bool \<Rightarrow> state \<Rightarrow> state option" where
  "callParseFn n pp enc fn canAssign s =
     (case fn of
        fn_grouping \<Rightarrow> grouping pp canAssign s
      | fn_call \<Rightarrow> call n pp enc canAssign s
      | fn_dot \<Rightarrow> dot n pp enc canAssign s
      | fn_unary \<Rightarrow> unary pp enc canAssign s
      | fn_binary \<Rightarrow> binary pp enc canAssign s
      | fn_variable \<Rightarrow> variable pp enc canAssign s
      | fn_string \<Rightarrow> Some (string_handler enc canAssign s)
      | fn_number \<Rightarrow> Some (number enc canAssign s)
      | fn_and \<Rightarrow> and_handler pp enc canAssign s
      | fn_or \<Rightarrow> or_handler pp enc canAssign s
      | fn_literal \<Rightarrow> Some (literal enc canAssign s)
      | fn_super \<Rightarrow> super_handler n pp enc canAssign s
      | fn_this \<Rightarrow> this_handler pp enc canAssign s)"

text \<open>The \<open>while\<close> loop of \<open>parsePrecendence\<close> over the infix operators; \<open>callFn\<close> calls
  a handler.\<close>

primrec infix_loop ::
  "nat \<Rightarrow> (ParseFn \<Rightarrow> bool \<Rightarrow> state \<Rightarrow> state option) \<Rightarrow> Precedence \<Rightarrow> bool \<Rightarrow> state \<Rightarrow> state option" where
  "infix_loop 0 callFn prec canAssign s = None"
| "infix_loop (Suc n) callFn prec canAssign s =
     (if prec \<le> precedence (getRule (ttype (current (parser s))))
      then (let s1 = advance s
            in case infixRule (getRule (ttype (previous (parser s1)))) of
                 None \<Rightarrow> None
               | Some fn \<Rightarrow>
                   do {
                     s2 \<leftarrow> callFn fn canAssign s1;
                     infix_loop n callFn prec canAssign s2
                   })
      else Some s)"

primrec parsePrecendence :: "nat \<Rightarrow> encoding \<Rightarrow> Precedence \<Rightarrow> state \<Rightarrow> state option" where
  "parsePrecendence 0 enc prec s = None"
| "parsePrecendence (Suc n) enc prec s =
     (let s1 = advance s
      in case prefixRule (getRule (ttype (previous (parser s1)))) of
           None \<Rightarrow> Some (error ''Expect expression.'' s1)
         | Some fn \<Rightarrow>
             (let canAssign = (prec \<le> PREC_ASSIGNMENT)
              in do {
                s2 \<leftarrow> callParseFn n (parsePrecendence n enc) enc fn canAssign s1;
                s3 \<leftarrow> infix_loop n (callParseFn n (parsePrecendence n enc) enc) prec canAssign s2;
                let (m, s4) = canAssign_match canAssign TOKEN_EQUAL s3;
                Some (if m then error ''Invalid assignement target.'' s4 else s4)
              }))"

section \<open>compiler.c: statements and declarations\<close>

text \<open>
  The statements call \<open>declaration\<close> and \<open>statement\<close> back: \<open>decl\<close> and \<open>stmt\<close> are the
  functions called under these names, \<open>pp\<close> is \<open>parsePrecendence\<close>, and \<open>n\<close> bounds the
  rounds of a loop.
\<close>

type_synonym stmt = "state \<Rightarrow> state option"

primrec block_loop :: "nat \<Rightarrow> stmt \<Rightarrow> state \<Rightarrow> state option" where
  "block_loop 0 decl s = None"
| "block_loop (Suc n) decl s =
     (if \<not> check TOKEN_RIGHT_BRACE s \<and> \<not> check TOKEN_EOF s
      then do { s1 \<leftarrow> decl s; block_loop n decl s1 }
      else Some s)"

definition block :: "nat \<Rightarrow> stmt \<Rightarrow> state \<Rightarrow> state option" where
  "block n decl s =
     do {
       s1 \<leftarrow> block_loop n decl s;
       Some (consume TOKEN_RIGHT_BRACE ''Expect '}' after block.'' s1)
     }"

definition incrArity :: "Compiler \<Rightarrow> Compiler" where
  "incrArity c =
     c\<lparr>func := ObjFunction (arity (func c) + 1) (upvalueCount (func c)) (chunk (func c))
                 (fname (func c))\<rparr>"

definition currentArity :: "state \<Rightarrow> int" where
  "currentArity s = (case compilers s of [] \<Rightarrow> 0 | c # cs \<Rightarrow> arity (func c))"

text \<open>The \<open>do ... while (match(TOKEN_COMMA))\<close> loop over the parameters of a function.\<close>

primrec parameter_loop :: "nat \<Rightarrow> encoding \<Rightarrow> state \<Rightarrow> state option" where
  "parameter_loop 0 enc s = None"
| "parameter_loop (Suc n) enc s =
     (let s1 = updCurrent incrArity s;
          s2 = (if currentArity s1 > 255
                then errorAtCurrent ''Can't have more than 255 parameters.'' s1 else s1);
          (constant, s3) = parseVariable ''Expect parameter name.'' s2;
          s4 = defineVariable enc constant s3;
          (m, s5) = match TOKEN_COMMA s4
      in if m then parameter_loop n enc s5 else Some s5)"

text \<open>The trailer that follows \<open>OP_CLOSURE\<close>: two bytes for each upvalue of the
  compiler that has just been unlinked.\<close>

definition emitUpvalues :: "Compiler \<Rightarrow> state \<Rightarrow> state" where
  "emitUpvalues compiler s =
     fold (\<lambda>i s. emitByte (index (upvalues compiler i))
                    (emitByte (if isLocal (upvalues compiler i) then 1 else 0) s))
          [0..<nat (upvalueCount (func compiler))] s"

text \<open>The C functions \<open>function\<close>, \<open>method\<close> and \<open>declaration\<close> are \<open>compileFunction\<close>,
  \<open>compileMethod\<close> and \<open>compileDeclaration\<close> here, and the handlers \<open>or_\<close>, \<open>and_\<close>,
  \<open>super_\<close>, \<open>this_\<close> and \<open>string\<close> are \<open>or_handler\<close>, \<open>and_handler\<close>, \<open>super_handler\<close>,
  \<open>this_handler\<close> and \<open>string_handler\<close>: Isabelle does not take the C names.\<close>

definition compileFunction ::
  "nat \<Rightarrow> stmt \<Rightarrow> encoding \<Rightarrow> FunctionType \<Rightarrow> state \<Rightarrow> state option" where
  "compileFunction n decl enc type s =
     (let s1 = beginScope (initCompiler type s);
          s2 = consume TOKEN_LEFT_PAREN ''Expect '(' after function name.'' s1
      in do {
        s3 \<leftarrow> (if \<not> check TOKEN_RIGHT_PAREN s2 then parameter_loop n enc s2 else Some s2);
        let s4 = consume TOKEN_RIGHT_PAREN ''Expect ')' after parameters.'' s3;
        let s5 = consume TOKEN_LEFT_BRACE ''Expect '{' before function body.'' s4;
        s6 \<leftarrow> block n decl s5;
        (compiler, s7) \<leftarrow> endCompiler enc s6;
        let (c, s8) = makeConstant (OBJ_FUNCTION (func compiler)) s7;
        let s9 = emitBytes (enc OP_CLOSURE) c s8;
        Some (emitUpvalues compiler s9)
      })"

definition compileMethod :: "nat \<Rightarrow> stmt \<Rightarrow> encoding \<Rightarrow> state \<Rightarrow> state option" where
  "compileMethod n decl enc s =
     (let s1 = consume TOKEN_IDENTIFIER ''Expect method name.'' s;
          (constant, s2) = identifierConstant (previous (parser s1)) s1;
          type = (if lexeme (previous (parser s2)) = ''init'' then TYPE_INITIALIZER
                  else TYPE_METHOD)
      in do {
        s3 \<leftarrow> compileFunction n decl enc type s2;
        Some (emitBytes (enc OP_METHOD) constant s3)
      })"

primrec method_loop :: "nat \<Rightarrow> stmt \<Rightarrow> encoding \<Rightarrow> state \<Rightarrow> state option" where
  "method_loop 0 decl enc s = None"
| "method_loop (Suc n) decl enc s =
     (if \<not> check TOKEN_RIGHT_BRACE s \<and> \<not> check TOKEN_EOF s
      then do { s1 \<leftarrow> compileMethod n decl enc s; method_loop n decl enc s1 }
      else Some s)"

definition currentHasSuperclass :: "state \<Rightarrow> bool" where
  "currentHasSuperclass s = (case classCompilers s of [] \<Rightarrow> False | cc # ccs \<Rightarrow> hasSuperclass cc)"

definition classDeclaration :: "nat \<Rightarrow> parse \<Rightarrow> stmt \<Rightarrow> encoding \<Rightarrow> state \<Rightarrow> state option" where
  "classDeclaration n pp decl enc s =
     (let s1 = consume TOKEN_IDENTIFIER ''Expect class name.'' s;
          className = previous (parser s1);
          (nameConstant, s2) = identifierConstant (previous (parser s1)) s1;
          s3 = declareVariable s2;
          s4 = emitBytes (enc OP_CLASS) nameConstant s3;
          s5 = defineVariable enc nameConstant s4;
          s6 = s5\<lparr>classCompilers := \<lparr>hasSuperclass = False\<rparr> # classCompilers s5\<rparr>;
          (m, s7) = match TOKEN_LESS s6
      in do {
        s8 \<leftarrow> (if m
               then (let a1 = consume TOKEN_IDENTIFIER ''Expect superclass name.'' s7
                     in do {
                       a2 \<leftarrow> variable pp enc False a1;
                       let a3 = (if identifiersEqual className (previous (parser a2))
                                 then error ''A class can't inherit from itself'' a2 else a2);
                       let a4 = beginScope a3;
                       let a5 = addLocal (syntheticToken ''super'') a4;
                       let a6 = defineVariable enc 0 a5;
                       a7 \<leftarrow> namedVariable pp enc className False a6;
                       let a8 = emitByte (enc OP_INHERIT) a7;
                       Some (a8\<lparr>classCompilers :=
                                  (case classCompilers a8 of [] \<Rightarrow> []
                                   | cc # ccs \<Rightarrow> cc\<lparr>hasSuperclass := True\<rparr> # ccs)\<rparr>)
                     })
               else Some s7);
        s9 \<leftarrow> namedVariable pp enc className False s8;
        let s10 = consume TOKEN_LEFT_BRACE ''Expect '{' before class body.'' s9;
        s11 \<leftarrow> method_loop n decl enc s10;
        let s12 = consume TOKEN_RIGHT_BRACE ''Expect '}' after class body.'' s11;
        let s13 = emitByte (enc OP_POP) s12;
        let s14 = (if currentHasSuperclass s13 then endScope enc s13 else s13);
        Some (s14\<lparr>classCompilers := tl (classCompilers s14)\<rparr>)
      })"

definition funDeclaration :: "nat \<Rightarrow> stmt \<Rightarrow> encoding \<Rightarrow> state \<Rightarrow> state option" where
  "funDeclaration n decl enc s =
     (let (global, s1) = parseVariable ''Expect function name'' s;
          s2 = markInitialized s1
      in do {
        s3 \<leftarrow> compileFunction n decl enc TYPE_FUNCTION s2;
        Some (defineVariable enc global s3)
      })"

definition varDeclaration :: "parse \<Rightarrow> encoding \<Rightarrow> state \<Rightarrow> state option" where
  "varDeclaration pp enc s =
     (let (global, s1) = parseVariable ''Expect variable name.'' s;
          (m, s2) = match TOKEN_EQUAL s1
      in do {
        s3 \<leftarrow> (if m then expression pp s2 else Some (emitByte (enc OP_NIL) s2));
        let s4 = consume TOKEN_SEMICOLON ''Expect ';' after variable declaration.'' s3;
        Some (defineVariable enc global s4)
      })"

definition expressionStatement :: "parse \<Rightarrow> encoding \<Rightarrow> state \<Rightarrow> state option" where
  "expressionStatement pp enc s =
     do {
       s1 \<leftarrow> expression pp s;
       let s2 = consume TOKEN_SEMICOLON ''Expect ';' after expression.'' s1;
       Some (emitByte (enc OP_POP) s2)
     }"

definition forStatement :: "parse \<Rightarrow> stmt \<Rightarrow> encoding \<Rightarrow> state \<Rightarrow> state option" where
  "forStatement pp stmt enc s =
     (let s1 = beginScope s;
          s2 = consume TOKEN_LEFT_PAREN ''Expect '(' after 'for'.'' s1;
          (m1, s3) = match TOKEN_SEMICOLON s2
      in do {
        s4 \<leftarrow> (if m1 then Some s3
               else (let (m2, a1) = match TOKEN_VAR s3
                     in if m2 then varDeclaration pp enc a1
                        else expressionStatement pp enc a1));
        let loopStart = count (currentChunk s4);
        let (m3, s5) = match TOKEN_SEMICOLON s4;
        (exitJump, s6) \<leftarrow>
          (if \<not> m3
           then do {
             b1 \<leftarrow> expression pp s5;
             let b2 = consume TOKEN_SEMICOLON ''Expect ';' after loop condition.'' b1;
             let (j, b3) = emitJump (enc OP_JUMP_IF_FALSE) b2;
             Some (j, emitByte (enc OP_POP) b3)
           }
           else Some (-1, s5));
        let (m4, s7) = match TOKEN_RIGHT_PAREN s6;
        (loopStart1, s8) \<leftarrow>
          (if \<not> m4
           then (let (bodyJump, c1) = emitJump (enc OP_JUMP) s7;
                     incrementStart = count (currentChunk c1)
                 in do {
                   c2 \<leftarrow> expression pp c1;
                   let c3 = emitByte (enc OP_POP) c2;
                   let c4 = consume TOKEN_RIGHT_PAREN ''Expect ')' after for clause.'' c3;
                   let c5 = emitLoop enc loopStart c4;
                   Some (incrementStart, patchJump bodyJump c5)
                 })
           else Some (loopStart, s7));
        s9 \<leftarrow> stmt s8;
        let s10 = emitLoop enc loopStart1 s9;
        let s11 = (if exitJump \<noteq> -1 then emitByte (enc OP_POP) (patchJump exitJump s10)
                   else s10);
        Some (endScope enc s11)
      })"

definition ifStatement :: "parse \<Rightarrow> stmt \<Rightarrow> encoding \<Rightarrow> state \<Rightarrow> state option" where
  "ifStatement pp stmt enc s =
     (let s1 = consume TOKEN_LEFT_PAREN ''Expect '(' after 'if'.'' s
      in do {
        s2 \<leftarrow> expression pp s1;
        let s3 = consume TOKEN_RIGHT_PAREN ''Expect ')' after condiftion.'' s2;
        let (thenJump, s4) = emitJump (enc OP_JUMP_IF_FALSE) s3;
        let s5 = emitByte (enc OP_POP) s4;
        s6 \<leftarrow> stmt s5;
        let (elseJump, s7) = emitJump (enc OP_JUMP) s6;
        let s8 = patchJump thenJump s7;
        let s9 = emitByte (enc OP_POP) s8;
        let (m, s10) = match TOKEN_ELSE s9;
        s11 \<leftarrow> (if m then stmt s10 else Some s10);
        Some (patchJump elseJump s11)
      })"

definition printStatement :: "parse \<Rightarrow> encoding \<Rightarrow> state \<Rightarrow> state option" where
  "printStatement pp enc s =
     do {
       s1 \<leftarrow> expression pp s;
       let s2 = consume TOKEN_SEMICOLON ''Expect ';' after value.'' s1;
       Some (emitByte (enc OP_PRINT) s2)
     }"

definition returnStatement :: "parse \<Rightarrow> encoding \<Rightarrow> state \<Rightarrow> state option" where
  "returnStatement pp enc s =
     (let s1 = (if currentType s = TYPE_SCRIPT
                then error ''can't return from top-level code.'' s else s);
          (m, s2) = match TOKEN_SEMICOLON s1
      in if m then Some (emitReturn enc s2)
         else (let s3 = (if currentType s2 = TYPE_INITIALIZER
                         then error ''Can't return a value from an initializer.'' s2 else s2)
               in do {
                 s4 \<leftarrow> expression pp s3;
                 let s5 = consume TOKEN_SEMICOLON ''Expect ';' after return value.'' s4;
                 Some (emitByte (enc OP_RETURN) s5)
               }))"

definition whileStatement :: "parse \<Rightarrow> stmt \<Rightarrow> encoding \<Rightarrow> state \<Rightarrow> state option" where
  "whileStatement pp stmt enc s =
     (let loopStart = count (currentChunk s);
          s1 = consume TOKEN_LEFT_PAREN ''Expect '(' after 'while'.'' s
      in do {
        s2 \<leftarrow> expression pp s1;
        let s3 = consume TOKEN_RIGHT_PAREN ''Expect ')' after 'while' condition.'' s2;
        let (exitJump, s4) = emitJump (enc OP_JUMP_IF_FALSE) s3;
        let s5 = emitByte (enc OP_POP) s4;
        s6 \<leftarrow> stmt s5;
        let s7 = emitLoop enc loopStart s6;
        let s8 = patchJump exitJump s7;
        Some (emitByte (enc OP_POP) s8)
      })"

text \<open>
  \<open>synchronize\<close> skips tokens up to the start of a statement. Each round of its loop
  takes at least one token from the stream, and the loop ends at \<open>TOKEN_EOF\<close>.
\<close>

definition pending :: "state \<Rightarrow> nat" where
  "pending s = length (scanner s) + (if ttype (current (parser s)) = TOKEN_EOF then 0 else 1)"

lemma pending_advance_loop: "pending (advance_loop ts s) \<le> length ts"
proof (induction ts arbitrary: s)
  case Nil
  show ?case by (simp add: pending_def scanToken_def eofToken_def)
next
  case (Cons t rest)
  have "pending (advance_loop rest s') \<le> Suc (length rest)" for s'
    using Cons.IH [of s'] by simp
  then show ?case
    by (simp add: Let_def scanToken_def) (simp add: pending_def)
qed

lemma pending_advance:
  assumes "ttype (current (parser s)) \<noteq> TOKEN_EOF"
  shows "pending (advance s) < pending s"
proof -
  have "pending (advance s) \<le> length (scanner s)"
    unfolding advance_def by (rule pending_advance_loop)
  moreover have "pending s = length (scanner s) + 1"
    using assms by (simp add: pending_def)
  ultimately show ?thesis by simp
qed

function synchronize_loop :: "state \<Rightarrow> state" where
  "synchronize_loop s =
     (if ttype (current (parser s)) \<noteq> TOKEN_EOF
      then (if ttype (previous (parser s)) = TOKEN_SEMICOLON then s
            else if ttype (current (parser s)) = TOKEN_CLASS
                  \<or> ttype (current (parser s)) = TOKEN_FUN
                  \<or> ttype (current (parser s)) = TOKEN_VAR
                  \<or> ttype (current (parser s)) = TOKEN_FOR
                  \<or> ttype (current (parser s)) = TOKEN_IF
                  \<or> ttype (current (parser s)) = TOKEN_WHILE
                  \<or> ttype (current (parser s)) = TOKEN_PRINT
                  \<or> ttype (current (parser s)) = TOKEN_RETURN then s
            else synchronize_loop (advance s))
      else s)"
  by pat_completeness auto
termination
  by (relation "measure pending") (auto simp: pending_advance)

declare synchronize_loop.simps [simp del]

definition synchronize :: "state \<Rightarrow> state" where
  "synchronize s = synchronize_loop (s\<lparr>parser := (parser s)\<lparr>panicMode := False\<rparr>\<rparr>)"

primrec statement :: "nat \<Rightarrow> parse \<Rightarrow> stmt \<Rightarrow> encoding \<Rightarrow> state \<Rightarrow> state option" where
  "statement 0 pp decl enc s = None"
| "statement (Suc n) pp decl enc s =
     (let (m1, s1) = match TOKEN_PRINT s
      in if m1 then printStatement pp enc s1
         else (let (m2, s2) = match TOKEN_LEFT_BRACE s1
               in if m2
                  then do {
                    a1 \<leftarrow> block n decl (beginScope s2);
                    Some (endScope enc a1)
                  }
                  else (let (m3, s3) = match TOKEN_IF s2
                        in if m3 then ifStatement pp (statement n pp decl enc) enc s3
                           else (let (m4, s4) = match TOKEN_RETURN s3
                                 in if m4 then returnStatement pp enc s4
                                    else (let (m5, s5) = match TOKEN_WHILE s4
                                          in if m5
                                             then whileStatement pp (statement n pp decl enc) enc s5
                                             else (let (m6, s6) = match TOKEN_FOR s5
                                                   in if m6
                                                      then forStatement pp (statement n pp decl enc) enc s6
                                                      else expressionStatement pp enc s6))))))"

primrec compileDeclaration :: "nat \<Rightarrow> encoding \<Rightarrow> state \<Rightarrow> state option" where
  "compileDeclaration 0 enc s = None"
| "compileDeclaration (Suc n) enc s =
     (let pp = parsePrecendence n enc;
          decl = compileDeclaration n enc;
          (m1, s1) = match TOKEN_CLASS s
      in do {
        s4 \<leftarrow> (if m1 then classDeclaration n pp decl enc s1
               else (let (m2, s2) = match TOKEN_VAR s1
                     in if m2 then varDeclaration pp enc s2
                        else (let (m3, s3) = match TOKEN_FUN s2
                              in if m3 then funDeclaration n decl enc s3
                                 else statement n pp decl enc s3)));
        Some (if panicMode (parser s4) then synchronize s4 else s4)
      })"

text \<open>
  \<open>compile\<close>. The globals start as C initialises them: no compiler, no class
  compiler, and a parser whose tokens are read only after \<open>advance\<close> has set them.
  The result holds the function that \<open>compile\<close> returns, \<open>None\<close> for \<open>NULL\<close>, and the
  final state, for its flags and its diagnostics.
\<close>

definition initScanner :: "Token list \<Rightarrow> state" where
  "initScanner source =
     \<lparr>parser = \<lparr>current = syntheticToken [], previous = syntheticToken [],
                 hadError = False, panicMode = False\<rparr>,
      scanner = source, compilers = [], classCompilers = [], diagnostics = []\<rparr>"

primrec compile_loop :: "nat \<Rightarrow> encoding \<Rightarrow> state \<Rightarrow> state option" where
  "compile_loop 0 enc s = None"
| "compile_loop (Suc n) enc s =
     (let (m, s1) = match TOKEN_EOF s
      in if \<not> m then do { s2 \<leftarrow> compileDeclaration n enc s1; compile_loop n enc s2 }
         else Some s1)"

definition compile :: "nat \<Rightarrow> encoding \<Rightarrow> Token list \<Rightarrow> (ObjFunction option \<times> state) option" where
  "compile n enc source =
     (let s0 = initScanner source;
          s1 = initCompiler TYPE_SCRIPT s0;
          s2 = s1\<lparr>parser := (parser s1)\<lparr>hadError := False, panicMode := False\<rparr>\<rparr>;
          s3 = advance s2
      in do {
        s4 \<leftarrow> compile_loop n enc s3;
        (compiler, s5) \<leftarrow> endCompiler enc s4;
        Some (if hadError (parser s5) then None else Some (func compiler), s5)
      })"

section \<open>The chunk writer keeps its two arrays together\<close>

text \<open>
  A chunk is well formed when \<open>count\<close> cells are in use out of \<open>capacity\<close> and both
  arrays have \<open>capacity\<close> cells. \<open>emitted\<close> and \<open>emittedLines\<close> are the cells in use.
\<close>

definition chunk_ok :: "Chunk \<Rightarrow> bool" where
  "chunk_ok ch \<longleftrightarrow>
     0 \<le> count ch \<and> count ch \<le> capacity ch \<and>
     int (length (code ch)) = capacity ch \<and> int (length (lines ch)) = capacity ch"

definition emitted :: "Chunk \<Rightarrow> uint8_t list" where
  "emitted ch = take (nat (count ch)) (code ch)"

definition emittedLines :: "Chunk \<Rightarrow> int list" where
  "emittedLines ch = take (nat (count ch)) (lines ch)"

definition ready :: "state \<Rightarrow> bool" where
  "ready s \<longleftrightarrow> compilers s \<noteq> [] \<and> chunk_ok (currentChunk s)"

definition emittedCode :: "state \<Rightarrow> uint8_t list" where
  "emittedCode s = emitted (currentChunk s)"

lemma length_GROW_ARRAY: "length (GROW_ARRAY z xs c c') = nat c'"
  by (simp add: GROW_ARRAY_def)

lemma take_GROW_ARRAY:
  "n \<le> length xs \<Longrightarrow> int (length xs) \<le> c' \<Longrightarrow> take n (GROW_ARRAY z xs c c') = take n xs"
  by (simp add: GROW_ARRAY_def)

lemma GROW_CAPACITY_gt: "0 \<le> c \<Longrightarrow> c < GROW_CAPACITY c"
  by (simp add: GROW_CAPACITY_def)

lemma take_Suc_update: "n < length xs \<Longrightarrow> take (Suc n) (xs[n := b]) = take n xs @ [b]"
  by (simp add: take_Suc_conv_app_nth)

lemma chunk_ok_initChunk: "chunk_ok initChunk"
  by (simp add: chunk_ok_def initChunk_def)

lemma writeChunk_ok: "chunk_ok ch \<Longrightarrow> chunk_ok (writeChunk ch b l)"
  using GROW_CAPACITY_gt [of "capacity ch"]
  by (auto simp: chunk_ok_def writeChunk_def Let_def length_GROW_ARRAY)

lemma count_writeChunk: "count (writeChunk ch b l) = count ch + 1"
  by (simp add: writeChunk_def Let_def)

lemma constants_writeChunk: "constants (writeChunk ch b l) = constants ch"
  by (simp add: writeChunk_def Let_def)

lemma written_cells:
  assumes "chunk_ok ch" and len: "int (length xs) = capacity ch"
  shows "take (nat (count ch + 1)) ((if capacity ch < count ch + 1
             then GROW_ARRAY z xs (capacity ch) (GROW_CAPACITY (capacity ch)) else xs)
           [nat (count ch) := b])
         = take (nat (count ch)) xs @ [b]"
proof (cases "capacity ch < count ch + 1")
  case True
  let ?c' = "GROW_CAPACITY (capacity ch)"
  let ?ys = "GROW_ARRAY z xs (capacity ch) ?c'"
  have eq: "count ch = capacity ch" "0 \<le> capacity ch" "nat (count ch) = length xs"
    using assms True len by (auto simp: chunk_ok_def)
  have lt: "capacity ch < ?c'" using eq GROW_CAPACITY_gt by simp
  have "nat (count ch) < length ?ys"
    using lt eq by (simp add: length_GROW_ARRAY)
  then have "take (Suc (nat (count ch))) (?ys[nat (count ch) := b]) = take (nat (count ch)) ?ys @ [b]"
    by (rule take_Suc_update)
  also have "take (nat (count ch)) ?ys = take (nat (count ch)) xs"
    using eq lt len by (intro take_GROW_ARRAY) auto
  finally show ?thesis
    using True eq by (simp add: nat_add_distrib)
next
  case False
  then have "nat (count ch) < length xs" using assms len by (auto simp: chunk_ok_def)
  then have "take (Suc (nat (count ch))) (xs[nat (count ch) := b]) = take (nat (count ch)) xs @ [b]"
    by (rule take_Suc_update)
  then show ?thesis
    using False assms by (simp add: nat_add_distrib chunk_ok_def)
qed

lemma emitted_writeChunk:
  assumes "chunk_ok ch"
  shows "emitted (writeChunk ch b l) = emitted ch @ [b]"
  using written_cells [of ch "code ch" 0 b] assms
  by (auto simp: emitted_def writeChunk_def Let_def chunk_ok_def split: if_splits)

lemma emittedLines_writeChunk:
  assumes "chunk_ok ch"
  shows "emittedLines (writeChunk ch b l) = emittedLines ch @ [l]"
  using written_cells [of ch "lines ch" 0 l] assms
  by (auto simp: emittedLines_def writeChunk_def Let_def chunk_ok_def split: if_splits)

subsection \<open>What the emitting functions change\<close>

lemma currentChunk_setCurrentChunk:
  "compilers s \<noteq> [] \<Longrightarrow> currentChunk (setCurrentChunk ch s) = ch"
  by (cases "compilers s") (simp_all add: currentChunk_def setCurrentChunk_def setChunk_def)

lemma setCurrentChunk_frame:
  "parser (setCurrentChunk ch s) = parser s"
  "scanner (setCurrentChunk ch s) = scanner s"
  "diagnostics (setCurrentChunk ch s) = diagnostics s"
  "classCompilers (setCurrentChunk ch s) = classCompilers s"
  "currentType (setCurrentChunk ch s) = currentType s"
  "tl (compilers (setCurrentChunk ch s)) = tl (compilers s)"
  "(compilers (setCurrentChunk ch s) = []) = (compilers s = [])"
  by (cases "compilers s"; simp add: setCurrentChunk_def currentType_def)+

lemma emitByte_frame:
  "parser (emitByte b s) = parser s"
  "scanner (emitByte b s) = scanner s"
  "diagnostics (emitByte b s) = diagnostics s"
  "classCompilers (emitByte b s) = classCompilers s"
  "currentType (emitByte b s) = currentType s"
  "tl (compilers (emitByte b s)) = tl (compilers s)"
  "(compilers (emitByte b s) = []) = (compilers s = [])"
  by (simp_all add: emitByte_def setCurrentChunk_frame)

lemma ready_emitByte: "ready s \<Longrightarrow> ready (emitByte b s)"
  by (simp add: ready_def emitByte_def setCurrentChunk_frame currentChunk_setCurrentChunk writeChunk_ok)

lemma emittedCode_emitByte: "ready s \<Longrightarrow> emittedCode (emitByte b s) = emittedCode s @ [b]"
  by (simp add: ready_def emittedCode_def emitByte_def currentChunk_setCurrentChunk emitted_writeChunk)

lemma count_emitByte:
  "compilers s \<noteq> [] \<Longrightarrow> count (currentChunk (emitByte b s)) = count (currentChunk s) + 1"
  by (simp add: emitByte_def currentChunk_setCurrentChunk count_writeChunk)

lemma constants_emitByte:
  "constants (currentChunk (emitByte b s)) = constants (currentChunk s)"
  by (cases "compilers s")
     (simp_all add: emitByte_def currentChunk_def setCurrentChunk_def setChunk_def constants_writeChunk)

lemma errorAt_frame:
  "compilers (errorAt t m s) = compilers s"
  "scanner (errorAt t m s) = scanner s"
  "classCompilers (errorAt t m s) = classCompilers s"
  "currentChunk (errorAt t m s) = currentChunk s"
  "currentType (errorAt t m s) = currentType s"
  "current (parser (errorAt t m s)) = current (parser s)"
  "previous (parser (errorAt t m s)) = previous (parser s)"
  "ready (errorAt t m s) = ready s"
  "emittedCode (errorAt t m s) = emittedCode s"
  by (simp_all add: errorAt_def currentChunk_def currentType_def ready_def emittedCode_def)

lemmas error_frame = errorAt_frame [of "previous (parser s)" m s, folded error_def] for m s

lemmas errorAtCurrent_frame = errorAt_frame [of "current (parser s)" m s, folded errorAtCurrent_def] for m s

lemma length_emittedCode: "ready s \<Longrightarrow> int (length (emittedCode s)) = count (currentChunk s)"
  by (auto simp: ready_def emittedCode_def emitted_def chunk_ok_def)

section \<open>Forward jumps\<close>

lemma ready_emitJump: "ready s \<Longrightarrow> ready (snd (emitJump b s))"
  by (simp add: emitJump_def Let_def ready_emitByte)

lemma emitJump_code:
  "ready s \<Longrightarrow> emittedCode (snd (emitJump b s)) = emittedCode s @ [b, 0xff, 0xff]"
  by (simp add: emitJump_def Let_def ready_emitByte emittedCode_emitByte)

lemma emitJump_offset:
  "ready s \<Longrightarrow> fst (emitJump b s) = count (currentChunk s) + 1"
  by (simp add: emitJump_def Let_def ready_def count_emitByte emitByte_frame)

lemma emitJump_frame:
  "parser (snd (emitJump b s)) = parser s"
  "diagnostics (snd (emitJump b s)) = diagnostics s"
  "scanner (snd (emitJump b s)) = scanner s"
  by (simp_all add: emitJump_def Let_def emitByte_frame)

lemma int_and_255: "(k::int) AND 255 = k mod 256"
proof -
  have "k AND mask 8 = take_bit 8 k" by (simp only: take_bit_eq_mask)
  then show ?thesis by (simp add: take_bit_eq_mod mask_eq_exp_minus_1)
qed

lemma big_endian_bytes:
  fixes jump :: int
  shows "256 * uint (word_of_int (drop_bit 8 jump AND 0xff) :: uint8_t)
           + uint (word_of_int (jump AND 0xff) :: uint8_t) = jump mod 65536"
proof -
  have "jump mod (256 * 256) = 256 * (jump div 256 mod 256) + jump mod 256"
    by (rule zmod_zmult2_eq) simp
  then show ?thesis
    by (simp add: int_and_255 uint_word_of_int take_bit_eq_mod drop_bit_eq_div)
qed

lemma patchJump_chunk:
  "compilers s \<noteq> [] \<Longrightarrow>
   currentChunk (patchJump offset s) =
     (let ch = currentChunk s; jump = count ch - offset - 2
      in Chunk (count ch) (capacity ch)
           ((code ch)[nat offset := word_of_int (drop_bit 8 jump AND 0xff),
                      nat (offset + 1) := word_of_int (jump AND 0xff)])
           (lines ch) (constants ch))"
  by (simp add: patchJump_def Let_def currentChunk_setCurrentChunk error_frame)

lemma patchJump_frame:
  "parser (patchJump offset s) =
     parser (if count (currentChunk s) - offset - 2 > UINT16_MAX
             then error ''Cannot jump this far !'' s else s)"
  "diagnostics (patchJump offset s) =
     diagnostics (if count (currentChunk s) - offset - 2 > UINT16_MAX
                  then error ''Cannot jump this far !'' s else s)"
  "scanner (patchJump offset s) = scanner s"
  "classCompilers (patchJump offset s) = classCompilers s"
  "(compilers (patchJump offset s) = []) = (compilers s = [])"
  by (simp_all add: patchJump_def Let_def setCurrentChunk_frame error_frame)

lemma ready_patchJump: "ready s \<Longrightarrow> ready (patchJump offset s)"
  by (simp add: ready_def patchJump_frame patchJump_chunk Let_def chunk_ok_def)

lemma patchJump_code:
  assumes "ready s"
  shows "emittedCode (patchJump offset s) =
     (emittedCode s)[nat offset := word_of_int (drop_bit 8 (count (currentChunk s) - offset - 2) AND 0xff),
                     nat (offset + 1) := word_of_int ((count (currentChunk s) - offset - 2) AND 0xff)]"
  using assms
  by (simp add: ready_def emittedCode_def emitted_def patchJump_chunk Let_def take_update_swap)

text \<open>
  Claim C2. \<open>emitJump\<close> appends the opcode and two bytes \<open>0xff\<close>, and returns the offset
  of the first of the two. \<open>patchJump\<close> with that offset, in a later state \<open>s2\<close> of the
  same chunk, computes \<open>dist = count - offset - 2\<close>, calls \<open>error\<close> with the message
  of the jump that is too far exactly when \<open>dist > 65535\<close>, and overwrites the two
  placeholders with the high and the low byte of \<open>dist\<close>, in this order: the two bytes
  read as a big-endian number are \<open>dist mod 65536\<close>, which is \<open>dist\<close> when no error is
  reported. Nothing else of the emitted code changes. The call of \<open>error\<close> records the
  diagnostic at the previous token and sets \<open>hadError\<close> and \<open>panicMode\<close>, unless the
  parser is in panic mode already, where \<open>errorAt\<close> returns at once. So a diagnostic is
  recorded exactly when \<open>dist > 65535\<close> outside panic mode; with \<open>dist \<le> 65535\<close>, and in
  panic mode, \<open>patchJump\<close> leaves the parser and the diagnostics as they are.
\<close>

theorem emitJump_patchJump:
  assumes "ready s" and "emitJump instruction s = (offset, s1)"
    and "ready s2" and "offset + 2 \<le> count (currentChunk s2)"
  defines "dist \<equiv> count (currentChunk s2) - offset - 2"
  shows "emittedCode s1 = emittedCode s @ [instruction, 0xff, 0xff] \<and>
         offset = int (length (emittedCode s)) + 1 \<and>
         (\<exists>hi lo. emittedCode (patchJump offset s2) =
                    (emittedCode s2)[nat offset := hi, nat offset + 1 := lo] \<and>
                  256 * uint hi + uint lo = dist mod 65536) \<and>
         nat offset + 1 < length (emittedCode s2) \<and>
         parser (patchJump offset s2) =
           parser (if dist > 65535 then error ''Cannot jump this far !'' s2 else s2) \<and>
         diagnostics (patchJump offset s2) =
           diagnostics (if dist > 65535 then error ''Cannot jump this far !'' s2 else s2) \<and>
         (dist > 65535 \<and> \<not> panicMode (parser s2) \<longrightarrow>
            diagnostics (patchJump offset s2) =
              diagnostics s2 @ [(previous (parser s2), ''Cannot jump this far !'')] \<and>
            hadError (parser (patchJump offset s2)) \<and>
            panicMode (parser (patchJump offset s2))) \<and>
         (dist \<le> 65535 \<or> panicMode (parser s2) \<longrightarrow>
            diagnostics (patchJump offset s2) = diagnostics s2 \<and>
            parser (patchJump offset s2) = parser s2) \<and>
         (diagnostics (patchJump offset s2) \<noteq> diagnostics s2 \<longleftrightarrow>
            dist > 65535 \<and> \<not> panicMode (parser s2))"
proof -
  have s1: "s1 = snd (emitJump instruction s)" and off: "offset = fst (emitJump instruction s)"
    using assms(2) by simp_all
  have a: "emittedCode s1 = emittedCode s @ [instruction, 0xff, 0xff]"
    using assms(1) by (simp add: s1 emitJump_code)
  have b: "offset = int (length (emittedCode s)) + 1"
    using assms(1) by (simp add: off emitJump_offset length_emittedCode)
  have pos: "0 \<le> offset" using b by simp
  let ?hi = "word_of_int (drop_bit 8 dist AND 0xff) :: uint8_t"
  let ?lo = "word_of_int (dist AND 0xff) :: uint8_t"
  have c: "emittedCode (patchJump offset s2) = (emittedCode s2)[nat offset := ?hi, nat offset + 1 := ?lo]"
    using pos by (simp add: patchJump_code [OF assms(3)] dist_def nat_add_distrib)
  have d: "256 * uint ?hi + uint ?lo = dist mod 65536"
    by (rule big_endian_bytes)
  have e: "nat offset + 1 < length (emittedCode s2)"
    using assms(4) pos length_emittedCode [OF assms(3)] by linarith
  have f: "parser (patchJump offset s2) =
      parser (if dist > 65535 then error ''Cannot jump this far !'' s2 else s2)"
    "diagnostics (patchJump offset s2) =
      diagnostics (if dist > 65535 then error ''Cannot jump this far !'' s2 else s2)"
    by (simp_all add: patchJump_frame dist_def UINT16_MAX_def)
  have g: "dist > 65535 \<and> \<not> panicMode (parser s2) \<longrightarrow>
            diagnostics (patchJump offset s2) =
              diagnostics s2 @ [(previous (parser s2), ''Cannot jump this far !'')] \<and>
            hadError (parser (patchJump offset s2)) \<and>
            panicMode (parser (patchJump offset s2))"
    by (simp add: f error_def errorAt_def)
  have h: "dist \<le> 65535 \<or> panicMode (parser s2) \<longrightarrow>
            diagnostics (patchJump offset s2) = diagnostics s2 \<and>
            parser (patchJump offset s2) = parser s2"
    by (auto simp: f error_def errorAt_def)
  have i: "diagnostics (patchJump offset s2) \<noteq> diagnostics s2 \<longleftrightarrow>
            dist > 65535 \<and> \<not> panicMode (parser s2)"
    by (auto simp: f error_def errorAt_def)
  have cd: "\<exists>hi lo. emittedCode (patchJump offset s2) =
                    (emittedCode s2)[nat offset := hi, nat offset + 1 := lo] \<and>
                  256 * uint hi + uint lo = dist mod 65536"
    using c d by blast
  show ?thesis
    using a b cd e f g h i by blast
qed

definition script0 :: state where
  "script0 = initCompiler TYPE_SCRIPT (initScanner [])"

lemma ready_initCompiler: "ready (initCompiler t s)"
  by (simp add: ready_def initCompiler_def Let_def currentChunk_def newFunction_def chunk_ok_initChunk)

lemma emittedCode_initCompiler: "emittedCode (initCompiler t s) = []"
  by (simp add: emittedCode_def emitted_def initCompiler_def Let_def currentChunk_def newFunction_def initChunk_def)

text \<open>A jump over 66000 bytes: \<open>emitMany n b\<close> emits the byte \<open>b\<close> \<open>n\<close> times.\<close>

primrec emitMany :: "nat \<Rightarrow> uint8_t \<Rightarrow> state \<Rightarrow> state" where
  "emitMany 0 b s = s"
| "emitMany (Suc n) b s = emitMany n b (emitByte b s)"

lemma emitMany_frame:
  "ready s \<Longrightarrow>
   ready (emitMany n b s) \<and>
   count (currentChunk (emitMany n b s)) = count (currentChunk s) + int n \<and>
   parser (emitMany n b s) = parser s \<and> diagnostics (emitMany n b s) = diagnostics s"
proof (induction n arbitrary: s)
  case 0
  then show ?case by simp
next
  case (Suc n)
  have r: "ready (emitByte b s)" using Suc.prems by (rule ready_emitByte)
  have "compilers s \<noteq> []" using Suc.prems by (simp add: ready_def)
  then show ?case
    using Suc.IH [OF r] by (simp add: count_emitByte emitByte_frame)
qed

definition farJump :: state where
  "farJump = emitMany 66000 7 (snd (emitJump 25 script0))"

theorem emitJump_patchJump_witness:
  "emittedCode (snd (emitJump 25 script0)) = [25, 0xff, 0xff] \<and>
   fst (emitJump 25 script0) = 1 \<and>
   emittedCode (patchJump 1 (emitByte 7 (snd (emitJump 25 script0)))) = [25, 0, 1, 7] \<and>
   diagnostics (patchJump 1 (emitByte 7 (snd (emitJump 25 script0)))) = [] \<and>
   count (currentChunk farJump) - 1 - 2 = 66000 \<and>
   diagnostics (patchJump 1 farJump) = [(syntheticToken [], ''Cannot jump this far !'')] \<and>
   hadError (parser (patchJump 1 farJump)) \<and>
   (\<exists>hi lo. emittedCode (patchJump 1 farJump) = (emittedCode farJump)[1 := hi, 2 := lo] \<and>
      256 * uint hi + uint lo = 464) \<and>
   diagnostics (patchJump 1 (farJump\<lparr>parser := (parser farJump)\<lparr>panicMode := True\<rparr>\<rparr>)) = []"
proof -
  let ?s1 = "snd (emitJump 25 script0)"
  let ?s2 = "emitByte 7 ?s1"
  let ?fp = "farJump\<lparr>parser := (parser farJump)\<lparr>panicMode := True\<rparr>\<rparr>"
  have r0: "ready script0" by (simp add: script0_def ready_initCompiler)
  have e0: "emittedCode script0 = []" by (simp add: script0_def emittedCode_initCompiler)
  have off: "fst (emitJump 25 script0) = 1"
    using r0 e0 length_emittedCode [OF r0] by (simp add: emitJump_offset)
  have j: "emitJump 25 script0 = (1, ?s1)" using off by (simp add: prod_eq_iff)
  have r1: "ready ?s1" using r0 by (rule ready_emitJump)
  have r2: "ready ?s2" using r0 by (simp add: ready_emitJump ready_emitByte)
  have code1: "emittedCode ?s1 = [25, 0xff, 0xff]"
    using r0 e0 by (simp add: emitJump_code)
  have code2: "emittedCode ?s2 = [25, 0xff, 0xff, 7]"
    using r0 e0 by (simp add: emittedCode_emitByte ready_emitJump emitJump_code)
  have cnt: "count (currentChunk ?s2) = 4"
    using length_emittedCode [OF r2] code2 by simp
  have p1: "parser ?s1 = parser script0" "diagnostics ?s1 = []"
    by (simp_all add: emitJump_frame script0_def initCompiler_def Let_def initScanner_def)
  have d0: "diagnostics ?s2 = []"
    by (simp add: emitByte_frame p1)
  have le: "1 + 2 \<le> count (currentChunk ?s2)" using cnt by simp
  obtain hi lo where
    h: "emittedCode (patchJump 1 ?s2) = (emittedCode ?s2)[nat 1 := hi, nat 1 + 1 := lo]"
       "256 * uint hi + uint lo = (count (currentChunk ?s2) - 1 - 2) mod 65536"
       "diagnostics (patchJump 1 ?s2) = diagnostics (if count (currentChunk ?s2) - 1 - 2 > 65535 then error ''Cannot jump this far !'' ?s2 else ?s2)"
    using emitJump_patchJump [OF r0 j r2 le] by blast
  have bounds: "uint hi < 256" "0 \<le> uint hi" "0 \<le> uint lo" "uint lo < 256"
    using uint_bounded [of hi] uint_bounded [of lo] by simp_all
  have sum: "256 * uint hi + uint lo = 1" using h(2) cnt by simp
  have hi0: "uint hi = 0"
  proof (rule ccontr)
    assume "uint hi \<noteq> 0"
    moreover have "0 \<le> uint hi" by (rule uint_ge_0)
    ultimately have "1 \<le> uint hi" by linarith
    then have "256 \<le> 256 * uint hi" by simp
    moreover have "0 \<le> uint lo" by (rule uint_ge_0)
    ultimately show False using sum by linarith
  qed
  then have "uint hi = 0" "uint lo = 1" using sum by simp_all
  then have "hi = 0" "lo = 1" by (simp_all add: word_uint_eq_iff)
  then have near: "emittedCode (snd (emitJump 25 script0)) = [25, 0xff, 0xff] \<and>
     fst (emitJump 25 script0) = 1 \<and>
     emittedCode (patchJump 1 ?s2) = [25, 0, 1, 7] \<and> diagnostics (patchJump 1 ?s2) = []"
    using h(1,3) code2 cnt d0 off e0 r0 by (simp add: emitJump_code)
  have c1: "count (currentChunk ?s1) = 3"
    using length_emittedCode [OF r1] code1 by simp
  have far: "ready farJump" "count (currentChunk farJump) = 66003"
    "parser farJump = parser script0" "diagnostics farJump = []"
    using emitMany_frame [OF r1, of 66000 7] c1 p1 by (simp_all add: farJump_def)
  have prev: "previous (parser script0) = syntheticToken []" "\<not> panicMode (parser script0)"
    by (simp_all add: script0_def initCompiler_def Let_def initScanner_def)
  have lef: "1 + 2 \<le> count (currentChunk farJump)" using far(2) by simp
  note F = emitJump_patchJump [OF r0 j far(1) lef]
  have cond: "count (currentChunk farJump) - 1 - 2 > 65535 \<and> \<not> panicMode (parser farJump)"
    using far prev by simp
  from F cond have g: "diagnostics (patchJump 1 farJump) =
      diagnostics farJump @ [(previous (parser farJump), ''Cannot jump this far !'')] \<and>
      hadError (parser (patchJump 1 farJump))"
    by blast
  then have f1: "diagnostics (patchJump 1 farJump) = [(syntheticToken [], ''Cannot jump this far !'')]"
    "hadError (parser (patchJump 1 farJump))"
    using far prev by simp_all
  from F have "\<exists>hi lo. emittedCode (patchJump 1 farJump) =
        (emittedCode farJump)[nat 1 := hi, nat 1 + 1 := lo] \<and>
      256 * uint hi + uint lo = (count (currentChunk farJump) - 1 - 2) mod 65536"
    by blast
  then have f2: "\<exists>hi lo. emittedCode (patchJump 1 farJump) = (emittedCode farJump)[1 := hi, 2 := lo] \<and>
      256 * uint hi + uint lo = 464"
    using far(2) by (simp add: numeral_2_eq_2)
  have rp: "ready ?fp" "count (currentChunk ?fp) = 66003" "diagnostics ?fp = []"
    "panicMode (parser ?fp)"
    using far by (simp_all add: ready_def currentChunk_def)
  have lep: "1 + 2 \<le> count (currentChunk ?fp)" using rp(2) by simp
  from emitJump_patchJump [OF r0 j rp(1) lep] rp(4)
  have "diagnostics (patchJump 1 ?fp) = diagnostics ?fp" by blast
  then have f3: "diagnostics (patchJump 1 ?fp) = []"
    using rp(3) by simp
  show ?thesis
    using near far(2) f1 f2 f3 by simp
qed

section \<open>The implicit return\<close>

lemma advance_loop_frame:
  "compilers (advance_loop ts s) = compilers s \<and>
   classCompilers (advance_loop ts s) = classCompilers s \<and>
   previous (parser (advance_loop ts s)) = previous (parser s)"
proof (induction ts arbitrary: s)
  case Nil
  show ?case by simp
next
  case (Cons t rest)
  show ?case
    by (simp add: Let_def Cons.IH errorAtCurrent_frame)
qed

lemma advance_frame:
  "compilers (advance s) = compilers s"
  "classCompilers (advance s) = classCompilers s"
  "previous (parser (advance s)) = current (parser s)"
  "currentChunk (advance s) = currentChunk s"
  "currentType (advance s) = currentType s"
  "ready (advance s) = ready s"
  "emittedCode (advance s) = emittedCode s"
  by (simp_all add: advance_def advance_loop_frame currentChunk_def currentType_def ready_def
        emittedCode_def)

lemma match_frame:
  "compilers (snd (match t s)) = compilers s"
  "classCompilers (snd (match t s)) = classCompilers s"
  "currentChunk (snd (match t s)) = currentChunk s"
  "currentType (snd (match t s)) = currentType s"
  "ready (snd (match t s)) = ready s"
  "emittedCode (snd (match t s)) = emittedCode s"
  by (simp_all add: match_def advance_frame)

lemma consume_frame:
  "compilers (consume t m s) = compilers s"
  "classCompilers (consume t m s) = classCompilers s"
  "currentChunk (consume t m s) = currentChunk s"
  "currentType (consume t m s) = currentType s"
  "ready (consume t m s) = ready s"
  "emittedCode (consume t m s) = emittedCode s"
  by (simp_all add: consume_def advance_frame errorAtCurrent_frame)

lemma ready_emitBytes: "ready s \<Longrightarrow> ready (emitBytes a b s)"
  by (simp add: emitBytes_def ready_emitByte)

lemma emittedCode_emitBytes: "ready s \<Longrightarrow> emittedCode (emitBytes a b s) = emittedCode s @ [a, b]"
  by (simp add: emitBytes_def ready_emitByte emittedCode_emitByte)

lemma emitBytes_frame:
  "parser (emitBytes a b s) = parser s"
  "scanner (emitBytes a b s) = scanner s"
  "diagnostics (emitBytes a b s) = diagnostics s"
  "classCompilers (emitBytes a b s) = classCompilers s"
  "currentType (emitBytes a b s) = currentType s"
  "tl (compilers (emitBytes a b s)) = tl (compilers s)"
  "(compilers (emitBytes a b s) = []) = (compilers s = [])"
  by (simp_all add: emitBytes_def emitByte_frame)

definition implicitReturn :: "encoding \<Rightarrow> FunctionType \<Rightarrow> uint8_t list" where
  "implicitReturn enc type =
     (if type = TYPE_INITIALIZER then [enc OP_GET_LOCAL, 0, enc OP_RETURN]
      else [enc OP_NIL, enc OP_RETURN])"

lemma ready_emitReturn: "ready s \<Longrightarrow> ready (emitReturn enc s)"
  by (simp add: emitReturn_def Let_def ready_emitByte ready_emitBytes)

lemma emittedCode_emitReturn:
  "ready s \<Longrightarrow> emittedCode (emitReturn enc s) = emittedCode s @ implicitReturn enc (currentType s)"
  by (simp add: emitReturn_def Let_def implicitReturn_def ready_emitByte ready_emitBytes
        emittedCode_emitByte emittedCode_emitBytes)

lemma emitReturn_frame:
  "parser (emitReturn enc s) = parser s"
  "scanner (emitReturn enc s) = scanner s"
  "diagnostics (emitReturn enc s) = diagnostics s"
  "classCompilers (emitReturn enc s) = classCompilers s"
  "tl (compilers (emitReturn enc s)) = tl (compilers s)"
  "(compilers (emitReturn enc s) = []) = (compilers s = [])"
  by (simp_all add: emitReturn_def Let_def emitByte_frame emitBytes_frame)

text \<open>An example of a numbering of the opcodes, for the concrete runs below: each opcode
  has its position in the list of the opcodes.\<close>

definition positional :: encoding where
  "positional op =
     (case op of
        OP_CONSTANT \<Rightarrow> 0 | OP_NIL \<Rightarrow> 1 | OP_TRUE \<Rightarrow> 2 | OP_FALSE \<Rightarrow> 3 | OP_POP \<Rightarrow> 4
      | OP_GET_LOCAL \<Rightarrow> 5 | OP_SET_LOCAL \<Rightarrow> 6 | OP_GET_GLOBAL \<Rightarrow> 7
      | OP_DEFINE_GLOBAL \<Rightarrow> 8 | OP_SET_GLOBAL \<Rightarrow> 9 | OP_GET_UPVALUE \<Rightarrow> 10
      | OP_SET_UPVALUE \<Rightarrow> 11 | OP_GET_PROPERTY \<Rightarrow> 12 | OP_SET_PROPERTY \<Rightarrow> 13
      | OP_GET_SUPER \<Rightarrow> 14 | OP_EQUAL \<Rightarrow> 15 | OP_GREATER \<Rightarrow> 16 | OP_LESS \<Rightarrow> 17
      | OP_ADD \<Rightarrow> 18 | OP_SUBSTRACT \<Rightarrow> 19 | OP_MULTIPLY \<Rightarrow> 20 | OP_DIVIDE \<Rightarrow> 21
      | OP_NOT \<Rightarrow> 22 | OP_NEGATE \<Rightarrow> 23 | OP_PRINT \<Rightarrow> 24 | OP_JUMP \<Rightarrow> 25
      | OP_JUMP_IF_FALSE \<Rightarrow> 26 | OP_LOOP \<Rightarrow> 27 | OP_CALL \<Rightarrow> 28 | OP_INVOKE \<Rightarrow> 29
      | OP_SUPER_INVOKE \<Rightarrow> 30 | OP_CLOSURE \<Rightarrow> 31 | OP_CLOSE_UPVALUE \<Rightarrow> 32
      | OP_RETURN \<Rightarrow> 33 | OP_CLASS \<Rightarrow> 34 | OP_INHERIT \<Rightarrow> 35 | OP_METHOD \<Rightarrow> 36)"

text \<open>
  Claim C3. In a state whose current chunk is well formed, \<open>emitReturn\<close> appends
  \<open>OP_GET_LOCAL 0 OP_RETURN\<close> when the current function is an initializer and
  \<open>OP_NIL OP_RETURN\<close> otherwise. \<open>endCompiler\<close>, which ends every compiled function,
  returns the function with exactly this sequence appended to its code, and
  \<open>returnStatement\<close>, when the next token is the semicolon of a bare \<open>return;\<close>,
  appends the same sequence.
\<close>

theorem implicit_return_sequence:
  assumes "ready s"
  shows "emittedCode (emitReturn enc s) = emittedCode s @ implicitReturn enc (currentType s) \<and>
         implicitReturn enc TYPE_INITIALIZER = [enc OP_GET_LOCAL, 0, enc OP_RETURN] \<and>
         implicitReturn enc TYPE_FUNCTION = [enc OP_NIL, enc OP_RETURN] \<and>
         implicitReturn enc TYPE_METHOD = [enc OP_NIL, enc OP_RETURN] \<and>
         implicitReturn enc TYPE_SCRIPT = [enc OP_NIL, enc OP_RETURN] \<and>
         (\<exists>c s'. endCompiler enc s = Some (c, s') \<and>
                 emitted (chunk (func c)) = emittedCode s @ implicitReturn enc (currentType s) \<and>
                 compilers s' = tl (compilers s)) \<and>
         (ttype (current (parser s)) = TOKEN_SEMICOLON \<longrightarrow>
            (\<exists>s'. returnStatement pp enc s = Some s' \<and>
                  emittedCode s' = emittedCode s @ implicitReturn enc (currentType s)))"
proof -
  have a: "emittedCode (emitReturn enc s) = emittedCode s @ implicitReturn enc (currentType s)"
    using assms by (rule emittedCode_emitReturn)
  have b: "\<exists>c s'. endCompiler enc s = Some (c, s') \<and>
                 emitted (chunk (func c)) = emittedCode s @ implicitReturn enc (currentType s) \<and>
                 compilers s' = tl (compilers s)"
  proof -
    have r: "ready (emitReturn enc s)" using assms by (rule ready_emitReturn)
    then obtain c cs where cs: "compilers (emitReturn enc s) = c # cs"
      by (cases "compilers (emitReturn enc s)") (auto simp: ready_def)
    have "emitted (chunk (func c)) = emittedCode (emitReturn enc s)"
      using cs by (simp add: emittedCode_def currentChunk_def)
    moreover have "cs = tl (compilers s)"
      using emitReturn_frame(5) [of enc s] cs by simp
    ultimately show ?thesis
      using cs a by (simp add: endCompiler_def Let_def)
  qed
  have c: "\<exists>s'. returnStatement pp enc s = Some s' \<and>
                emittedCode s' = emittedCode s @ implicitReturn enc (currentType s)"
    if semi: "ttype (current (parser s)) = TOKEN_SEMICOLON"
  proof -
    let ?s1 = "if currentType s = TYPE_SCRIPT then error ''can't return from top-level code.'' s else s"
    have m: "match TOKEN_SEMICOLON ?s1 = (True, advance ?s1)"
      using semi by (simp add: match_def check_def error_frame)
    have r: "ready (advance ?s1)" using assms by (simp add: advance_frame error_frame)
    have "returnStatement pp enc s = Some (emitReturn enc (advance ?s1))"
      using m by (simp add: returnStatement_def Let_def)
    moreover have "emittedCode (emitReturn enc (advance ?s1)) =
        emittedCode s @ implicitReturn enc (currentType s)"
      using emittedCode_emitReturn [OF r] by (simp add: advance_frame error_frame)
    ultimately show ?thesis by simp
  qed
  show ?thesis using a b c by (simp add: implicitReturn_def)
qed

definition semicolon :: Token where
  "semicolon = \<lparr>ttype = TOKEN_SEMICOLON, lexeme = '';'', trailing = [], line = 1\<rparr>"

definition initializer0 :: state where
  "initializer0 = advance (initCompiler TYPE_INITIALIZER (initScanner [semicolon]))"

theorem implicit_return_sequence_witness:
  "emittedCode (emitReturn positional initializer0) = [5, 0, 33] \<and>
   (\<exists>c s'. endCompiler positional initializer0 = Some (c, s') \<and>
      emitted (chunk (func c)) = [5, 0, 33]) \<and>
   (\<exists>s'. returnStatement (\<lambda>p s. None) positional initializer0 = Some s' \<and>
      emittedCode s' = [5, 0, 33]) \<and>
   emittedCode (emitReturn positional script0) = [1, 33]"
proof -
  have r: "ready initializer0"
    by (simp add: initializer0_def advance_frame ready_initCompiler)
  have e: "emittedCode initializer0 = []"
    by (simp add: initializer0_def advance_frame emittedCode_initCompiler)
  have t: "currentType initializer0 = TYPE_INITIALIZER"
    by (simp add: initializer0_def advance_frame currentType_def initCompiler_def Let_def)
  have semi: "ttype (current (parser initializer0)) = TOKEN_SEMICOLON"
    by (simp add: initializer0_def advance_def initCompiler_def Let_def initScanner_def
          scanToken_def semicolon_def)
  have r0: "ready script0" by (simp add: script0_def ready_initCompiler)
  have e0: "emittedCode script0 = []" by (simp add: script0_def emittedCode_initCompiler)
  have t0: "currentType script0 = TYPE_SCRIPT"
    by (simp add: script0_def currentType_def initCompiler_def Let_def)
  show ?thesis
    using implicit_return_sequence [OF r, of positional "\<lambda>p s. None"]
      implicit_return_sequence [OF r0, of positional "\<lambda>p s. None"] semi
    by (auto simp: e t e0 t0 positional_def)
qed

section \<open>Resolving a name\<close>

text \<open>
  \<open>topLocalNamed c nm i\<close>: the local in slot \<open>i\<close> is the topmost local of \<open>c\<close> with the
  name \<open>nm\<close>. \<open>noLocalNamed c nm\<close>: no local of \<open>c\<close> has this name.
\<close>

definition topLocalNamed :: "Compiler \<Rightarrow> Token \<Rightarrow> nat \<Rightarrow> bool" where
  "topLocalNamed c nm i \<longleftrightarrow>
     i < nat (localCount c) \<and> identifiersEqual (name (locals c i)) nm \<and>
     (\<forall>j \<in> {Suc i ..< nat (localCount c)}. \<not> identifiersEqual (name (locals c j)) nm)"

definition noLocalNamed :: "Compiler \<Rightarrow> Token \<Rightarrow> bool" where
  "noLocalNamed c nm \<longleftrightarrow>
     (\<forall>j \<in> {0 ..< nat (localCount c)}. \<not> identifiersEqual (name (locals c j)) nm)"

text \<open>What \<open>error\<close> does: nothing in panic mode, and otherwise it records the diagnostic
  at the previous token and sets both flags.\<close>

lemma error_reports:
  "panicMode (parser s) \<Longrightarrow> error m s = s"
  "\<not> panicMode (parser s) \<Longrightarrow>
     diagnostics (error m s) = diagnostics s @ [(previous (parser s), m)] \<and>
     hadError (parser (error m s)) \<and> panicMode (parser (error m s))"
  by (simp_all add: error_def errorAt_def)

lemma resolveLocal_loop_found:
  assumes "i < n" "identifiersEqual (name (locals c i)) nm"
    and "\<forall>j \<in> {Suc i ..< n}. \<not> identifiersEqual (name (locals c j)) nm"
  shows "resolveLocal_loop c nm n s =
     (int i, if depth (locals c i) = -1
             then error ''Can't read local variable in its own initializer.'' s else s)"
  using assms
proof (induction n)
  case 0
  then show ?case by simp
next
  case (Suc n)
  show ?case
  proof (cases "i = n")
    case True
    then show ?thesis using Suc.prems by (simp add: Let_def)
  next
    case False
    then have "i < n" using Suc.prems by simp
    moreover have "\<not> identifiersEqual (name (locals c n)) nm"
      using Suc.prems \<open>i < n\<close> by simp
    moreover have "\<forall>j \<in> {Suc i ..< n}. \<not> identifiersEqual (name (locals c j)) nm"
      using Suc.prems by simp
    ultimately show ?thesis using Suc.IH Suc.prems(2) by (simp add: Let_def)
  qed
qed

lemma resolveLocal_loop_none:
  "\<forall>j \<in> {0 ..< n}. \<not> identifiersEqual (name (locals c j)) nm \<Longrightarrow>
   resolveLocal_loop c nm n s = (-1, s)"
  by (induction n) (simp_all add: Let_def)

lemma resolveLocal_found:
  "topLocalNamed c nm i \<Longrightarrow>
   resolveLocal c nm s =
     (int i, if depth (locals c i) = -1
             then error ''Can't read local variable in its own initializer.'' s else s)"
  unfolding resolveLocal_def topLocalNamed_def by (intro resolveLocal_loop_found) simp_all

lemma resolveLocal_none: "noLocalNamed c nm \<Longrightarrow> resolveLocal c nm s = (-1, s)"
  unfolding resolveLocal_def noLocalNamed_def by (rule resolveLocal_loop_none)

text \<open>The last statement of \<open>namedVariable\<close>: an assignment when \<open>canAssign\<close> holds and
  \<open>=\<close> follows, a read otherwise.\<close>

definition accessVariable ::
  "parse \<Rightarrow> encoding \<Rightarrow> bool \<Rightarrow> OpCode \<Rightarrow> OpCode \<Rightarrow> uint8_t \<Rightarrow> state \<Rightarrow> state option" where
  "accessVariable pp enc canAssign getOp setOp arg s =
     (let (m, s6) = canAssign_match canAssign TOKEN_EQUAL s
      in if m
         then do {
           s7 \<leftarrow> expression pp s6;
           Some (emitBytes (enc setOp) arg s7)
         }
         else Some (emitBytes (enc getOp) arg s6))"

lemma accessVariable_read:
  "\<not> (canAssign \<and> ttype (current (parser s)) = TOKEN_EQUAL) \<Longrightarrow>
   accessVariable pp enc canAssign getOp setOp arg s = Some (emitBytes (enc getOp) arg s)"
  by (auto simp: accessVariable_def canAssign_match_def match_def check_def)

lemma accessVariable_write:
  "canAssign \<Longrightarrow> ttype (current (parser s)) = TOKEN_EQUAL \<Longrightarrow>
   accessVariable pp enc canAssign getOp setOp arg s =
     Option.bind (expression pp (advance s)) (\<lambda>s7. Some (emitBytes (enc setOp) arg s7))"
  by (simp add: accessVariable_def canAssign_match_def match_def check_def)

lemma namedVariable_local:
  assumes "compilers s = c # cs" "topLocalNamed c nm i"
  shows "namedVariable pp enc nm canAssign s =
     accessVariable pp enc canAssign OP_GET_LOCAL OP_SET_LOCAL (word_of_nat i)
       (if depth (locals c i) = -1
        then error ''Can't read local variable in its own initializer.'' s else s)"
  using assms
  by (simp add: namedVariable_def resolveLocal_found accessVariable_def Let_def)

text \<open>
  Claim C8. When the topmost local with the name is still being declared (its depth is
  \<open>-1\<close>), \<open>resolveLocal\<close> calls \<open>error\<close> with the message of the read in the own
  initializer and still returns the slot of this local, not \<open>-1\<close>. \<open>namedVariable\<close>
  then goes on in the state after the error: it emits \<open>OP_GET_LOCAL\<close> with this slot,
  or, when it may assign and \<open>=\<close> follows, compiles the right-hand side and emits
  \<open>OP_SET_LOCAL\<close> with this slot.
\<close>

theorem read_in_own_initializer:
  assumes "compilers s = c # cs" and "topLocalNamed c nm i" and "depth (locals c i) = -1"
  defines "s1 \<equiv> error ''Can't read local variable in its own initializer.'' s"
  shows "resolveLocal c nm s = (int i, s1) \<and> int i \<noteq> -1 \<and>
         (\<not> panicMode (parser s) \<longrightarrow>
            diagnostics s1 = diagnostics s @
              [(previous (parser s), ''Can't read local variable in its own initializer.'')] \<and>
            hadError (parser s1)) \<and>
         (\<not> (canAssign \<and> ttype (current (parser s)) = TOKEN_EQUAL) \<longrightarrow>
            namedVariable pp enc nm canAssign s =
              Some (emitBytes (enc OP_GET_LOCAL) (word_of_nat i) s1) \<and>
            (ready s \<longrightarrow>
               emittedCode (emitBytes (enc OP_GET_LOCAL) (word_of_nat i) s1) =
                 emittedCode s @ [enc OP_GET_LOCAL, word_of_nat i])) \<and>
         (canAssign \<and> ttype (current (parser s)) = TOKEN_EQUAL \<longrightarrow>
            namedVariable pp enc nm canAssign s =
              Option.bind (expression pp (advance s1))
                (\<lambda>s7. Some (emitBytes (enc OP_SET_LOCAL) (word_of_nat i) s7)))"
proof -
  have nv: "namedVariable pp enc nm canAssign s =
      accessVariable pp enc canAssign OP_GET_LOCAL OP_SET_LOCAL (word_of_nat i) s1"
    using namedVariable_local [OF assms(1,2)] assms(3) by (simp add: s1_def)
  have cur: "current (parser s1) = current (parser s)" by (simp add: s1_def error_frame)
  have rd: "ready s1 = ready s" "emittedCode s1 = emittedCode s" by (simp_all add: s1_def error_frame)
  have a: "resolveLocal c nm s = (int i, s1)"
    using resolveLocal_found [OF assms(2), of s] assms(3) by (simp add: s1_def)
  have b: "diagnostics s1 = diagnostics s @
              [(previous (parser s), ''Can't read local variable in its own initializer.'')] \<and>
            hadError (parser s1)" if "\<not> panicMode (parser s)"
    using error_reports(2) [OF that] by (simp add: s1_def)
  have c: "namedVariable pp enc nm canAssign s =
              Some (emitBytes (enc OP_GET_LOCAL) (word_of_nat i) s1)"
    if "\<not> (canAssign \<and> ttype (current (parser s)) = TOKEN_EQUAL)"
    unfolding nv by (rule accessVariable_read) (use that cur in simp)
  have d: "emittedCode (emitBytes (enc OP_GET_LOCAL) (word_of_nat i) s1) =
                 emittedCode s @ [enc OP_GET_LOCAL, word_of_nat i]" if "ready s"
    using that by (simp add: emittedCode_emitBytes rd)
  have e: "namedVariable pp enc nm canAssign s =
              Option.bind (expression pp (advance s1))
                (\<lambda>s7. Some (emitBytes (enc OP_SET_LOCAL) (word_of_nat i) s7))"
    if "canAssign \<and> ttype (current (parser s)) = TOKEN_EQUAL"
    unfolding nv by (rule accessVariable_write) (use that cur in simp_all)
  show ?thesis
    using a b c d e by auto
qed

definition ident :: "string \<Rightarrow> Token" where
  "ident nm = \<lparr>ttype = TOKEN_IDENTIFIER, lexeme = nm, trailing = [], line = 1\<rparr>"

text \<open>The state in which the initializer of \<open>var a\<close> is compiled, inside a block.\<close>

definition declaring_a :: state where
  "declaring_a = addLocal (ident ''a'') (beginScope script0)"

lemma declaring_a_compilers:
  "compilers declaring_a =
     [\<lparr>func = newFunction, ftype = TYPE_SCRIPT,
       locals = (\<lambda>i. uninitLocal)
         (0 := \<lparr>name = syntheticToken ''this'', depth = 0, isCaptured = False\<rparr>,
          Suc 0 := \<lparr>name = ident ''a'', depth = -1, isCaptured = False\<rparr>),
       localCount = 2, upvalues = (\<lambda>i. uninitUpvalue), scopeDepth = 1\<rparr>]"
  by (simp add: declaring_a_def script0_def addLocal_def beginScope_def updCurrent_def
        initCompiler_def Let_def initScanner_def UINT8_COUNT_def)

theorem read_in_own_initializer_witness:
  "\<exists>c. compilers declaring_a = [c] \<and> topLocalNamed c (ident ''a'') 1 \<and> depth (locals c 1) = -1 \<and>
     fst (resolveLocal c (ident ''a'') declaring_a) = 1 \<and>
     diagnostics (snd (resolveLocal c (ident ''a'') declaring_a)) =
       [(syntheticToken [], ''Can't read local variable in its own initializer.'')] \<and>
     (\<exists>s'. namedVariable (\<lambda>p s. None) positional (ident ''a'') True declaring_a = Some s' \<and>
        emittedCode s' = [5, 1] \<and> hadError (parser s'))"
proof -
  obtain c where c: "compilers declaring_a = [c]"
    "locals c (Suc 0) = \<lparr>name = ident ''a'', depth = -1, isCaptured = False\<rparr>"
    "locals c 0 = \<lparr>name = syntheticToken ''this'', depth = 0, isCaptured = False\<rparr>"
    "localCount c = 2"
    by (simp add: declaring_a_compilers)
  have top: "topLocalNamed c (ident ''a'') 1"
    by (simp add: topLocalNamed_def c identifiersEqual_def)
  have d: "depth (locals c 1) = -1" by (simp add: c)
  have np: "\<not> panicMode (parser declaring_a)" "diagnostics declaring_a = []"
    "previous (parser declaring_a) = syntheticToken []"
    "ttype (current (parser declaring_a)) \<noteq> TOKEN_EQUAL"
    by (simp_all add: declaring_a_def script0_def addLocal_def beginScope_def updCurrent_def
        initCompiler_def Let_def initScanner_def UINT8_COUNT_def syntheticToken_def)
  have r: "ready declaring_a" "emittedCode declaring_a = []"
    by (simp_all add: ready_def emittedCode_def currentChunk_def declaring_a_compilers
        newFunction_def chunk_ok_def emitted_def initChunk_def)
  show ?thesis
    using read_in_own_initializer [OF c(1) top d, of True "\<lambda>p s. None" positional] np r top
    by (auto simp: c positional_def emitBytes_frame error_frame)
qed

subsection \<open>Upvalues\<close>

lemma addUpvalue_found:
  assumes "find (\<lambda>i. index (upvalues c i) = idx \<and> isLocal (upvalues c i) = isLoc)
             [0..<nat (upvalueCount (func c))] = Some i"
  shows "addUpvalue c idx isLoc s = (int i, c, s)"
  using assms by (simp add: addUpvalue_def Let_def)

lemma addUpvalue_absent:
  assumes "\<forall>i \<in> {0..<nat (upvalueCount (func c))}.
             \<not> (index (upvalues c i) = idx \<and> isLocal (upvalues c i) = isLoc)"
  shows "addUpvalue c idx isLoc s =
     (if upvalueCount (func c) = UINT8_COUNT
      then (0, c, error ''Too many closure variable in function.'' s)
      else (upvalueCount (func c),
            c\<lparr>upvalues := (upvalues c)(nat (upvalueCount (func c)) := \<lparr>index = idx, isLocal = isLoc\<rparr>),
              func := setUpvalueCount (upvalueCount (func c) + 1) (func c)\<rparr>,
            s))"
proof -
  have "find (\<lambda>i. index (upvalues c i) = idx \<and> isLocal (upvalues c i) = isLoc)
          [0..<nat (upvalueCount (func c))] = None"
    using assms by (simp add: find_None_iff)
  then show ?thesis by (simp add: addUpvalue_def Let_def)
qed

text \<open>Unless the table is full, the index that \<open>addUpvalue\<close> returns is the index of a
  live cell of the table that holds the descriptor.\<close>

lemma addUpvalue_records:
  assumes "addUpvalue c idx isLoc s = (k, c', s')" and "0 \<le> upvalueCount (func c)"
    and "upvalueCount (func c) \<noteq> UINT8_COUNT"
  shows "0 \<le> k \<and> k < upvalueCount (func c') \<and>
         upvalues c' (nat k) = \<lparr>index = idx, isLocal = isLoc\<rparr> \<and> s' = s"
proof (cases "find (\<lambda>i. index (upvalues c i) = idx \<and> isLocal (upvalues c i) = isLoc)
                [0..<nat (upvalueCount (func c))]")
  case None
  then have "\<forall>i \<in> {0..<nat (upvalueCount (func c))}.
             \<not> (index (upvalues c i) = idx \<and> isLocal (upvalues c i) = isLoc)"
    by (simp add: find_None_iff)
  from addUpvalue_absent [OF this, of s] assms show ?thesis
    by (auto simp: setUpvalueCount_def)
next
  case (Some i)
  then have "i < nat (upvalueCount (func c))"
    "index (upvalues c i) = idx \<and> isLocal (upvalues c i) = isLoc"
    by (auto simp: find_Some_iff)
  with addUpvalue_found [OF Some, of s] assms show ?thesis by auto
qed

lemma addUpvalue_nonneg:
  "0 \<le> upvalueCount (func c) \<Longrightarrow> fst (addUpvalue c idx isLoc s) \<noteq> -1"
  by (auto simp: addUpvalue_def Let_def split: option.splits)

lemma resolveUpvalue_none:
  "\<forall>c \<in> set (tl chain). noLocalNamed c nm \<Longrightarrow> resolveUpvalue chain nm s = (-1, chain, s)"
proof (induction chain nm s rule: resolveUpvalue.induct)
  case (1 nm s)
  show ?case by simp
next
  case (2 compiler nm s)
  show ?case by simp
next
  case (3 compiler enclosing rest nm s)
  have e: "resolveLocal enclosing nm s = (-1, s)"
    using 3(2) by (simp add: resolveLocal_none)
  have "resolveUpvalue (enclosing # rest) nm s = (-1, enclosing # rest, s)"
    using 3(1) [OF e [symmetric] refl] 3(2) by simp
  then show ?case by (simp add: e)
qed

lemma namedVariable_not_local:
  assumes "compilers s = c # cs" "noLocalNamed c nm"
  shows "namedVariable pp enc nm canAssign s =
     (case resolveUpvalue (c # cs) nm s of
        (arg2, chain, s3) \<Rightarrow>
          if arg2 \<noteq> -1
          then accessVariable pp enc canAssign OP_GET_UPVALUE OP_SET_UPVALUE (word_of_int arg2)
                 (s3\<lparr>compilers := chain\<rparr>)
          else (case identifierConstant nm (s3\<lparr>compilers := chain\<rparr>) of
                  (arg3, s5) \<Rightarrow>
                    accessVariable pp enc canAssign OP_GET_GLOBAL OP_SET_GLOBAL arg3 s5))"
  using assms
  by (simp add: namedVariable_def resolveLocal_none accessVariable_def Let_def
        split: prod.splits)

lemma identifierConstant_constants:
  "compilers s \<noteq> [] \<Longrightarrow>
   constants (currentChunk (snd (identifierConstant nm s))) =
     constants (currentChunk s) @ [OBJ_STRING (lexeme nm)]"
  by (simp add: identifierConstant_def makeConstant_def addConstant_def Let_def
        currentChunk_setCurrentChunk error_frame)

text \<open>
  Claim C1. A use of the name \<open>nm\<close> in the function of the compiler \<open>c\<close>, whose
  enclosing compilers are \<open>cs\<close>, is resolved in this order.
  \<^enum> If \<open>i\<close> is the topmost local of \<open>c\<close> with this name, the operand is the slot \<open>i\<close> and
    the opcodes are those of a local; \<open>error\<close> is called first when the depth of the
    local is \<open>-1\<close>.
  \<^enum> Otherwise, if \<open>j\<close> is the topmost such local of the immediate parent \<open>p\<close>, this
    local is marked captured, \<open>addUpvalue\<close> is called on \<open>c\<close> with the slot \<open>j\<close> and
    \<open>isLocal = true\<close>, and the operand is the index that it returns.
  \<^enum> Otherwise, if the parent resolves the name to its upvalue \<open>u\<close>, \<open>addUpvalue\<close> is
    called on \<open>c\<close> with \<open>u\<close> and \<open>isLocal = false\<close>, and the operand is the index that it
    returns.
  \<^enum> Otherwise, that is when no compiler of the chain has a local with this name, the
    name is added to the constant pool and the opcodes are those of a global.
  In each case the last statement of \<open>namedVariable\<close> emits the opcode with this
  operand. Last, \<open>addUpvalue\<close> returns the index of a live cell that holds the
  descriptor that it was given, unless the table is full.
\<close>

theorem name_resolution_order:
  assumes "compilers s = c # cs" and "0 \<le> upvalueCount (func c)"
  shows
    "(\<forall>i. topLocalNamed c nm i \<longrightarrow>
        namedVariable pp enc nm canAssign s =
          accessVariable pp enc canAssign OP_GET_LOCAL OP_SET_LOCAL (word_of_nat i)
            (if depth (locals c i) = -1
             then error ''Can't read local variable in its own initializer.'' s else s)) \<and>
     (\<forall>p rest j. noLocalNamed c nm \<and> cs = p # rest \<and> topLocalNamed p nm j \<longrightarrow>
        (case addUpvalue c (word_of_nat j) True
                (if depth (locals p j) = -1
                 then error ''Can't read local variable in its own initializer.'' s else s) of
           (idx, c', s2) \<Rightarrow>
             namedVariable pp enc nm canAssign s =
               accessVariable pp enc canAssign OP_GET_UPVALUE OP_SET_UPVALUE (word_of_int idx)
                 (s2\<lparr>compilers :=
                       c' # p\<lparr>locals := (locals p)(j := (locals p j)\<lparr>isCaptured := True\<rparr>)\<rparr> # rest\<rparr>))) \<and>
     (\<forall>p rest u chain s1.
        noLocalNamed c nm \<and> cs = p # rest \<and> noLocalNamed p nm \<and>
        resolveUpvalue (p # rest) nm s = (u, chain, s1) \<and> u \<noteq> -1 \<longrightarrow>
        (case addUpvalue c (word_of_int u) False s1 of
           (idx, c', s2) \<Rightarrow>
             namedVariable pp enc nm canAssign s =
               accessVariable pp enc canAssign OP_GET_UPVALUE OP_SET_UPVALUE (word_of_int idx)
                 (s2\<lparr>compilers := c' # chain\<rparr>))) \<and>
     ((\<forall>c' \<in> set (c # cs). noLocalNamed c' nm) \<longrightarrow>
        (case identifierConstant nm s of
           (k, s') \<Rightarrow>
             namedVariable pp enc nm canAssign s =
               accessVariable pp enc canAssign OP_GET_GLOBAL OP_SET_GLOBAL k s' \<and>
             constants (currentChunk s') = constants (currentChunk s) @ [OBJ_STRING (lexeme nm)])) \<and>
     (\<forall>idx isLoc s0 k c' s'.
        addUpvalue c idx isLoc s0 = (k, c', s') \<and> upvalueCount (func c) \<noteq> UINT8_COUNT \<longrightarrow>
        0 \<le> k \<and> k < upvalueCount (func c') \<and>
        upvalues c' (nat k) = \<lparr>index = idx, isLocal = isLoc\<rparr>)"
proof (intro conjI allI impI)
  fix i assume "topLocalNamed c nm i"
  then show "namedVariable pp enc nm canAssign s =
          accessVariable pp enc canAssign OP_GET_LOCAL OP_SET_LOCAL (word_of_nat i)
            (if depth (locals c i) = -1
             then error ''Can't read local variable in its own initializer.'' s else s)"
    using assms(1) by (rule namedVariable_local [rotated])
next
  fix p rest j
  assume h: "noLocalNamed c nm \<and> cs = p # rest \<and> topLocalNamed p nm j"
  let ?s1 = "if depth (locals p j) = -1
             then error ''Can't read local variable in its own initializer.'' s else s"
  obtain idx c' s2 where au: "addUpvalue c (word_of_nat j) True ?s1 = (idx, c', s2)"
    by (cases "addUpvalue c (word_of_nat j) True ?s1") auto
  have ne: "idx \<noteq> -1" using addUpvalue_nonneg [OF assms(2), of "word_of_nat j" True ?s1] au by simp
  have rl: "resolveLocal p nm s = (int j, ?s1)" using h by (simp add: resolveLocal_found)
  have "resolveUpvalue (c # p # rest) nm s =
      (idx, c' # p\<lparr>locals := (locals p)(j := (locals p j)\<lparr>isCaptured := True\<rparr>)\<rparr> # rest, s2)"
    using au by (simp add: rl Let_def)
  then have "namedVariable pp enc nm canAssign s =
      accessVariable pp enc canAssign OP_GET_UPVALUE OP_SET_UPVALUE (word_of_int idx)
        (s2\<lparr>compilers := c' # p\<lparr>locals := (locals p)(j := (locals p j)\<lparr>isCaptured := True\<rparr>)\<rparr> # rest\<rparr>)"
    using namedVariable_not_local [of s c cs nm pp enc canAssign] assms(1) h ne by simp
  then show "case addUpvalue c (word_of_nat j) True ?s1 of
           (idx, c', s2) \<Rightarrow>
             namedVariable pp enc nm canAssign s =
               accessVariable pp enc canAssign OP_GET_UPVALUE OP_SET_UPVALUE (word_of_int idx)
                 (s2\<lparr>compilers :=
                       c' # p\<lparr>locals := (locals p)(j := (locals p j)\<lparr>isCaptured := True\<rparr>)\<rparr> # rest\<rparr>)"
    by (simp add: au)
next
  fix p rest u chain s1
  assume h: "noLocalNamed c nm \<and> cs = p # rest \<and> noLocalNamed p nm \<and>
        resolveUpvalue (p # rest) nm s = (u, chain, s1) \<and> u \<noteq> -1"
  obtain idx c' s2 where au: "addUpvalue c (word_of_int u) False s1 = (idx, c', s2)"
    by (cases "addUpvalue c (word_of_int u) False s1") auto
  have ne: "idx \<noteq> -1" using addUpvalue_nonneg [OF assms(2), of "word_of_int u" False s1] au by simp
  have rl: "resolveLocal p nm s = (-1, s)" using h by (simp add: resolveLocal_none)
  have "resolveUpvalue (c # p # rest) nm s = (idx, c' # chain, s2)"
    using au h by (simp add: rl Let_def)
  then have "namedVariable pp enc nm canAssign s =
      accessVariable pp enc canAssign OP_GET_UPVALUE OP_SET_UPVALUE (word_of_int idx)
        (s2\<lparr>compilers := c' # chain\<rparr>)"
    using namedVariable_not_local [of s c cs nm pp enc canAssign] assms(1) h ne by simp
  then show "case addUpvalue c (word_of_int u) False s1 of
           (idx, c', s2) \<Rightarrow>
             namedVariable pp enc nm canAssign s =
               accessVariable pp enc canAssign OP_GET_UPVALUE OP_SET_UPVALUE (word_of_int idx)
                 (s2\<lparr>compilers := c' # chain\<rparr>)"
    by (simp add: au)
next
  assume h: "\<forall>c' \<in> set (c # cs). noLocalNamed c' nm"
  have ru: "resolveUpvalue (c # cs) nm s = (-1, c # cs, s)"
    using h by (intro resolveUpvalue_none) simp
  have same: "s\<lparr>compilers := c # cs\<rparr> = s" using assms(1) by simp
  obtain k s' where ic: "identifierConstant nm s = (k, s')"
    by (cases "identifierConstant nm s") auto
  have "namedVariable pp enc nm canAssign s =
      accessVariable pp enc canAssign OP_GET_GLOBAL OP_SET_GLOBAL k s'"
    using namedVariable_not_local [of s c cs nm pp enc canAssign] assms(1) h
    by (simp add: ru same ic)
  moreover have "constants (currentChunk s') = constants (currentChunk s) @ [OBJ_STRING (lexeme nm)]"
    using identifierConstant_constants [of s nm] assms(1) ic by simp
  ultimately show "case identifierConstant nm s of
           (k, s') \<Rightarrow>
             namedVariable pp enc nm canAssign s =
               accessVariable pp enc canAssign OP_GET_GLOBAL OP_SET_GLOBAL k s' \<and>
             constants (currentChunk s') = constants (currentChunk s) @ [OBJ_STRING (lexeme nm)]"
    by (simp add: ic)
next
  fix idx isLoc s0 k c' s'
  assume h: "addUpvalue c idx isLoc s0 = (k, c', s') \<and> upvalueCount (func c) \<noteq> UINT8_COUNT"
  then have r: "0 \<le> k \<and> k < upvalueCount (func c') \<and>
         upvalues c' (nat k) = \<lparr>index = idx, isLocal = isLoc\<rparr> \<and> s' = s0"
    using addUpvalue_records [of c idx isLoc s0 k c' s'] assms(2) by simp
  from r show "0 \<le> k" by simp
  from r show "k < upvalueCount (func c')" by simp
  from r show "upvalues c' (nat k) = \<lparr>index = idx, isLocal = isLoc\<rparr>" by simp
qed
text \<open>The states of the witness: \<open>a\<close> is a local of a block of the script, \<open>inner1\<close> is a
  function declared in this block and \<open>inner2\<close> a function declared in \<open>inner1\<close>.\<close>

definition local_a :: state where
  "local_a = markInitialized declaring_a"

definition inner1 :: state where
  "inner1 = beginScope (initCompiler TYPE_FUNCTION local_a)"

definition inner2 :: state where
  "inner2 = beginScope (initCompiler TYPE_FUNCTION inner1)"

definition blockCompiler :: Compiler where
  "blockCompiler =
     \<lparr>func = newFunction, ftype = TYPE_SCRIPT,
       locals = (\<lambda>i. uninitLocal)
         (0 := \<lparr>name = syntheticToken ''this'', depth = 0, isCaptured = False\<rparr>,
          Suc 0 := \<lparr>name = ident ''a'', depth = 1, isCaptured = False\<rparr>),
       localCount = 2, upvalues = (\<lambda>i. uninitUpvalue), scopeDepth = 1\<rparr>"

definition functionCompiler :: Compiler where
  "functionCompiler =
     \<lparr>func = ObjFunction 0 0 initChunk (Some []), ftype = TYPE_FUNCTION,
       locals = (\<lambda>i. uninitLocal)(0 := \<lparr>name = syntheticToken [], depth = 0, isCaptured = False\<rparr>),
       localCount = 1, upvalues = (\<lambda>i. uninitUpvalue), scopeDepth = 1\<rparr>"

lemma local_a_state:
  "compilers local_a = [blockCompiler]"
  "parser local_a = \<lparr>current = syntheticToken [], previous = syntheticToken [],
                      hadError = False, panicMode = False\<rparr>"
  by (simp_all add: local_a_def markInitialized_def declaring_a_compilers blockCompiler_def
        topLocal_def declaring_a_def addLocal_def beginScope_def updCurrent_def script0_def
        initCompiler_def Let_def initScanner_def UINT8_COUNT_def)

lemma inner1_state:
  "compilers inner1 = [functionCompiler, blockCompiler]"
  "parser inner1 = parser local_a"
  by (simp_all add: inner1_def beginScope_def updCurrent_def initCompiler_def Let_def
        local_a_state functionCompiler_def newFunction_def syntheticToken_def)

lemma inner2_state:
  "compilers inner2 = [functionCompiler, functionCompiler, blockCompiler]"
  "parser inner2 = parser local_a"
  by (simp_all add: inner2_def beginScope_def updCurrent_def initCompiler_def Let_def
        inner1_state local_a_state functionCompiler_def newFunction_def syntheticToken_def)

lemma witness_locals:
  "topLocalNamed blockCompiler (ident ''a'') (Suc 0)"
  "noLocalNamed functionCompiler (ident ''a'')"
  by (simp_all add: topLocalNamed_def noLocalNamed_def blockCompiler_def functionCompiler_def
        identifiersEqual_def ident_def syntheticToken_def)

lemma witness_counts:
  "0 \<le> upvalueCount (func blockCompiler)" "0 \<le> upvalueCount (func functionCompiler)"
  by (simp_all add: blockCompiler_def functionCompiler_def newFunction_def)

lemma emitByte_compilers:
  "compilers s = c # cs \<Longrightarrow>
   \<exists>ch. compilers (emitByte b s) = c\<lparr>func := setChunk ch (func c)\<rparr> # cs"
  by (auto simp: emitByte_def setCurrentChunk_def)

lemma emitBytes_compilers:
  "compilers s = c # cs \<Longrightarrow>
   \<exists>ch. compilers (emitBytes a b s) = c\<lparr>func := setChunk ch (func c)\<rparr> # cs"
proof -
  assume "compilers s = c # cs"
  then obtain ch1 where "compilers (emitByte a s) = c\<lparr>func := setChunk ch1 (func c)\<rparr> # cs"
    using emitByte_compilers by blast
  from emitByte_compilers [OF this, of b] show ?thesis
    by (auto simp: emitBytes_def setChunk_def)
qed

lemma ready_Cons:
  "compilers s = c # cs \<Longrightarrow> chunk (func c) = initChunk \<Longrightarrow> ready s \<and> emittedCode s = []"
  by (simp add: ready_def emittedCode_def currentChunk_def chunk_ok_def emitted_def
        initChunk_def)

theorem name_resolution_order_witness:
  "(\<exists>s'. namedVariable (\<lambda>p s. None) positional (ident ''a'') False local_a = Some s' \<and>
      emittedCode s' = [5, 1]) \<and>
   (\<exists>s' c' p'. namedVariable (\<lambda>p s. None) positional (ident ''a'') False inner1 = Some s' \<and>
      emittedCode s' = [10, 0] \<and> compilers s' = [c', p'] \<and>
      upvalues c' 0 = \<lparr>index = 1, isLocal = True\<rparr> \<and> upvalueCount (func c') = 1 \<and>
      isCaptured (locals p' 1)) \<and>
   (\<exists>s' c' p' g'. namedVariable (\<lambda>p s. None) positional (ident ''a'') False inner2 = Some s' \<and>
      emittedCode s' = [10, 0] \<and> compilers s' = [c', p', g'] \<and>
      upvalues c' 0 = \<lparr>index = 0, isLocal = False\<rparr> \<and>
      upvalues p' 0 = \<lparr>index = 1, isLocal = True\<rparr> \<and> isCaptured (locals g' 1)) \<and>
   (\<exists>s'. namedVariable (\<lambda>p s. None) positional (ident ''b'') False script0 = Some s' \<and>
      emittedCode s' = [7, 0] \<and> constants (currentChunk s') = [OBJ_STRING ''b''])"
proof (intro conjI)
  let ?np = "\<lambda>(p::Precedence) (s::state). None :: state option"
  let ?a = "ident ''a''"
  have rd: "ready local_a \<and> emittedCode local_a = []"
    by (rule ready_Cons [OF local_a_state(1)]) (simp add: blockCompiler_def newFunction_def)
  have "namedVariable ?np positional ?a False local_a =
      accessVariable ?np positional False OP_GET_LOCAL OP_SET_LOCAL (word_of_nat (Suc 0)) local_a"
    using name_resolution_order [OF local_a_state(1) witness_counts(1), of ?a ?np positional False,
        THEN conjunct1, rule_format, OF witness_locals(1)]
    by (simp add: blockCompiler_def newFunction_def)
  then show "\<exists>s'. namedVariable ?np positional ?a False local_a = Some s' \<and>
      emittedCode s' = [5, 1]"
    using rd by (simp add: accessVariable_read emittedCode_emitBytes positional_def)
next
  let ?np = "\<lambda>(p::Precedence) (s::state). None :: state option"
  let ?a = "ident ''a''"
  let ?c' = "functionCompiler\<lparr>upvalues := (upvalues functionCompiler)(0 := \<lparr>index = 1, isLocal = True\<rparr>),
                 func := setUpvalueCount 1 (func functionCompiler)\<rparr>"
  let ?p' = "blockCompiler\<lparr>locals := (locals blockCompiler)
                 (Suc 0 := (locals blockCompiler (Suc 0))\<lparr>isCaptured := True\<rparr>)\<rparr>"
  let ?s' = "inner1\<lparr>compilers := [?c', ?p']\<rparr>"
  have au: "addUpvalue functionCompiler 1 True inner1 = (0, ?c', inner1)"
    by (simp add: addUpvalue_def functionCompiler_def Let_def UINT8_COUNT_def setUpvalueCount_def)
  have rd: "ready ?s' \<and> emittedCode ?s' = []"
    by (rule ready_Cons [of _ ?c' "[?p']"]) (simp_all add: functionCompiler_def setUpvalueCount_def)
  have "namedVariable ?np positional ?a False inner1 =
      accessVariable ?np positional False OP_GET_UPVALUE OP_SET_UPVALUE 0 ?s'"
    using name_resolution_order [OF inner1_state(1) witness_counts(2), of ?a ?np positional False,
        THEN conjunct2, THEN conjunct1, rule_format, of blockCompiler "[]" "Suc 0"]
      witness_locals
    by (simp add: au blockCompiler_def)
  then show "\<exists>s' c' p'. namedVariable ?np positional ?a False inner1 = Some s' \<and>
      emittedCode s' = [10, 0] \<and> compilers s' = [c', p'] \<and>
      upvalues c' 0 = \<lparr>index = 1, isLocal = True\<rparr> \<and> upvalueCount (func c') = 1 \<and>
      isCaptured (locals p' 1)"
    using rd emitBytes_compilers [of ?s' ?c' "[?p']" 10 0]
    by (auto simp: accessVariable_read emittedCode_emitBytes positional_def
          setUpvalueCount_def setChunk_def blockCompiler_def)
next
  let ?np = "\<lambda>(p::Precedence) (s::state). None :: state option"
  let ?a = "ident ''a''"
  let ?p' = "functionCompiler\<lparr>upvalues := (upvalues functionCompiler)(0 := \<lparr>index = 1, isLocal = True\<rparr>),
                 func := setUpvalueCount 1 (func functionCompiler)\<rparr>"
  let ?c' = "functionCompiler\<lparr>upvalues := (upvalues functionCompiler)(0 := \<lparr>index = 0, isLocal = False\<rparr>),
                 func := setUpvalueCount 1 (func functionCompiler)\<rparr>"
  let ?g' = "blockCompiler\<lparr>locals := (locals blockCompiler)
                 (Suc 0 := (locals blockCompiler (Suc 0))\<lparr>isCaptured := True\<rparr>)\<rparr>"
  let ?s' = "inner2\<lparr>compilers := [?c', ?p', ?g']\<rparr>"
  have au1: "addUpvalue functionCompiler 1 True inner2 = (0, ?p', inner2)"
    by (simp add: addUpvalue_def functionCompiler_def Let_def UINT8_COUNT_def setUpvalueCount_def)
  have au2: "addUpvalue functionCompiler 0 False inner2 = (0, ?c', inner2)"
    by (simp add: addUpvalue_def functionCompiler_def Let_def UINT8_COUNT_def setUpvalueCount_def)
  have rl: "resolveLocal blockCompiler ?a inner2 = (1, inner2)"
    using resolveLocal_found [OF witness_locals(1), of inner2] by (simp add: blockCompiler_def)
  have ru: "resolveUpvalue [functionCompiler, blockCompiler] ?a inner2 = (0, [?p', ?g'], inner2)"
    by (simp add: rl au1 Let_def)
  have rd: "ready ?s' \<and> emittedCode ?s' = []"
    by (rule ready_Cons [of _ ?c' "[?p', ?g']"]) (simp_all add: functionCompiler_def setUpvalueCount_def)
  have "namedVariable ?np positional ?a False inner2 =
      accessVariable ?np positional False OP_GET_UPVALUE OP_SET_UPVALUE 0 ?s'"
    using name_resolution_order [OF inner2_state(1) witness_counts(2), of ?a ?np positional False,
        THEN conjunct2, THEN conjunct2, THEN conjunct1, rule_format,
        of functionCompiler "[blockCompiler]" 0 "[?p', ?g']" inner2]
      witness_locals ru
    by (simp add: au2)
  then show "\<exists>s' c' p' g'. namedVariable ?np positional ?a False inner2 = Some s' \<and>
      emittedCode s' = [10, 0] \<and> compilers s' = [c', p', g'] \<and>
      upvalues c' 0 = \<lparr>index = 0, isLocal = False\<rparr> \<and>
      upvalues p' 0 = \<lparr>index = 1, isLocal = True\<rparr> \<and> isCaptured (locals g' 1)"
    using rd emitBytes_compilers [of ?s' ?c' "[?p', ?g']" 10 0]
    by (auto simp: accessVariable_read emittedCode_emitBytes positional_def
          setUpvalueCount_def setChunk_def blockCompiler_def)
next
  let ?np = "\<lambda>(p::Precedence) (s::state). None :: state option"
  let ?b = "ident ''b''"
  obtain c where c: "compilers script0 = [c]" "localCount c = 1"
    "locals c 0 = \<lparr>name = syntheticToken ''this'', depth = 0, isCaptured = False\<rparr>"
    "upvalueCount (func c) = 0" "chunk (func c) = initChunk"
    by (simp add: script0_def initCompiler_def Let_def initScanner_def newFunction_def)
  have no: "\<forall>c' \<in> set [c]. noLocalNamed c' ?b"
    by (simp add: noLocalNamed_def c identifiersEqual_def ident_def syntheticToken_def)
  obtain k s' where ic: "identifierConstant ?b script0 = (k, s')"
    by (cases "identifierConstant ?b script0") auto
  have k: "k = 0" and s': "ready s'" "emittedCode s' = []"
    using ic ready_Cons [OF c(1) c(5)] c
    by (auto simp: identifierConstant_def makeConstant_def addConstant_def Let_def UINT8_MAX_def
          currentChunk_def initChunk_def ready_def emittedCode_def emitted_def chunk_ok_def
          setCurrentChunk_def setChunk_def split: if_splits)
  have cst: "constants (currentChunk (emitBytes x y s')) = constants (currentChunk s')" for x y
    by (simp add: emitBytes_def constants_emitByte)
  have c0: "constants (currentChunk script0) = []"
    by (simp add: currentChunk_def c initChunk_def)
  have "namedVariable ?np positional ?b False script0 =
          accessVariable ?np positional False OP_GET_GLOBAL OP_SET_GLOBAL k s' \<and>
        constants (currentChunk s') = constants (currentChunk script0) @ [OBJ_STRING (lexeme ?b)]"
    using name_resolution_order [of script0 c "[]" ?b ?np positional False,
        THEN conjunct2, THEN conjunct2, THEN conjunct2, THEN conjunct1, rule_format] no
    by (simp add: c ic)
  then show "\<exists>s'. namedVariable ?np positional ?b False script0 = Some s' \<and>
      emittedCode s' = [7, 0] \<and> constants (currentChunk s') = [OBJ_STRING ''b'']"
    using s' cst c0
    by (simp add: k accessVariable_read emittedCode_emitBytes positional_def ident_def)
qed

section \<open>Indices that do not fit into a byte\<close>

text \<open>\<open>withConstant v s\<close> is the state after \<open>addConstant\<close> has added \<open>v\<close> to the pool of the
  current chunk.\<close>

definition withConstant :: "Value \<Rightarrow> state \<Rightarrow> state" where
  "withConstant v s = setCurrentChunk (snd (addConstant (currentChunk s) v)) s"

lemma makeConstant_cases:
  "makeConstant v s =
     (if 256 \<le> length (constants (currentChunk s))
      then (0, error ''Too many constants in one chunks.'' (withConstant v s))
      else (word_of_nat (length (constants (currentChunk s))), withConstant v s))"
  by (auto simp: makeConstant_def addConstant_def withConstant_def Let_def UINT8_MAX_def)

lemma withConstant_constants:
  "compilers s \<noteq> [] \<Longrightarrow>
   constants (currentChunk (withConstant v s)) = constants (currentChunk s) @ [v]"
  by (simp add: withConstant_def addConstant_def Let_def currentChunk_setCurrentChunk)

lemma withConstant_frame:
  "ready (withConstant v s) = ready s"
  "emittedCode (withConstant v s) = emittedCode s"
  "parser (withConstant v s) = parser s"
  "diagnostics (withConstant v s) = diagnostics s"
  by (cases "compilers s";
      simp add: withConstant_def addConstant_def Let_def ready_def emittedCode_def emitted_def
        chunk_ok_def currentChunk_def setCurrentChunk_def setChunk_def)+

text \<open>
  Claim C9. A chunk that already holds 256 constants or more takes one more:
  \<open>makeConstant\<close> adds the value to the pool, calls \<open>error\<close> and returns 0, and
  \<open>emitConstant\<close> goes on and emits \<open>OP_CONSTANT\<close> with the operand 0; with fewer
  constants the index of the new entry is returned. A compiler whose 256 upvalues all
  differ from the requested one does not record it: \<open>addUpvalue\<close> calls \<open>error\<close> and
  returns 0, and \<open>namedVariable\<close>, resolving a local of the parent, goes on and emits
  the upvalue opcode with the operand 0.
\<close>

theorem index_capacity_exceeded:
  "(256 \<le> length (constants (currentChunk s)) \<longrightarrow>
      makeConstant v s = (0, error ''Too many constants in one chunks.'' (withConstant v s)) \<and>
      emitConstant enc v s =
        emitBytes (enc OP_CONSTANT) 0
          (error ''Too many constants in one chunks.'' (withConstant v s)) \<and>
      (ready s \<longrightarrow>
         emittedCode (emitConstant enc v s) = emittedCode s @ [enc OP_CONSTANT, 0] \<and>
         constants (currentChunk (emitConstant enc v s)) = constants (currentChunk s) @ [v])) \<and>
   (length (constants (currentChunk s)) < 256 \<longrightarrow>
      makeConstant v s = (word_of_nat (length (constants (currentChunk s))), withConstant v s)) \<and>
   (upvalueCount (func c) = 256 \<and>
    (\<forall>i \<in> {0..<256}. \<not> (index (upvalues c i) = idx \<and> isLocal (upvalues c i) = isLoc)) \<longrightarrow>
      addUpvalue c idx isLoc s = (0, c, error ''Too many closure variable in function.'' s)) \<and>
   (compilers s = c # p # rest \<and> noLocalNamed c nm \<and> topLocalNamed p nm j \<and>
    depth (locals p j) \<noteq> -1 \<and> upvalueCount (func c) = 256 \<and>
    (\<forall>i \<in> {0..<256}. \<not> (index (upvalues c i) = word_of_nat j \<and> isLocal (upvalues c i))) \<longrightarrow>
      namedVariable pp enc nm canAssign s =
        accessVariable pp enc canAssign OP_GET_UPVALUE OP_SET_UPVALUE 0
          ((error ''Too many closure variable in function.'' s)
             \<lparr>compilers :=
                c # p\<lparr>locals := (locals p)(j := (locals p j)\<lparr>isCaptured := True\<rparr>)\<rparr> # rest\<rparr>))"
proof (intro conjI impI)
  assume full: "256 \<le> length (constants (currentChunk s))"
  show mk: "makeConstant v s = (0, error ''Too many constants in one chunks.'' (withConstant v s))"
    using full by (simp add: makeConstant_cases)
  show ec: "emitConstant enc v s =
        emitBytes (enc OP_CONSTANT) 0
          (error ''Too many constants in one chunks.'' (withConstant v s))"
    by (simp add: emitConstant_def mk)
  assume r: "ready s"
  then have r1: "ready (error ''Too many constants in one chunks.'' (withConstant v s))"
    by (simp add: error_frame withConstant_frame)
  show "emittedCode (emitConstant enc v s) = emittedCode s @ [enc OP_CONSTANT, 0]"
    using r1 by (simp add: ec emittedCode_emitBytes error_frame withConstant_frame)
  show "constants (currentChunk (emitConstant enc v s)) = constants (currentChunk s) @ [v]"
    using r by (simp add: ec emitBytes_def constants_emitByte error_frame withConstant_constants
        ready_def)
next
  assume "length (constants (currentChunk s)) < 256"
  then show "makeConstant v s =
      (word_of_nat (length (constants (currentChunk s))), withConstant v s)"
    by (simp add: makeConstant_cases)
next
  assume h: "upvalueCount (func c) = 256 \<and>
    (\<forall>i \<in> {0..<256}. \<not> (index (upvalues c i) = idx \<and> isLocal (upvalues c i) = isLoc))"
  then have "\<forall>i \<in> {0..<nat (upvalueCount (func c))}.
             \<not> (index (upvalues c i) = idx \<and> isLocal (upvalues c i) = isLoc)"
    by simp
  from addUpvalue_absent [OF this, of s] h
  show "addUpvalue c idx isLoc s = (0, c, error ''Too many closure variable in function.'' s)"
    by (simp add: UINT8_COUNT_def)
next
  assume h: "compilers s = c # p # rest \<and> noLocalNamed c nm \<and> topLocalNamed p nm j \<and>
    depth (locals p j) \<noteq> -1 \<and> upvalueCount (func c) = 256 \<and>
    (\<forall>i \<in> {0..<256}. \<not> (index (upvalues c i) = word_of_nat j \<and> isLocal (upvalues c i)))"
  then have "\<forall>i \<in> {0..<nat (upvalueCount (func c))}.
             \<not> (index (upvalues c i) = word_of_nat j \<and> isLocal (upvalues c i) = True)"
    by simp
  from addUpvalue_absent [OF this, of s] h
  have au: "addUpvalue c (word_of_nat j) True s =
      (0, c, error ''Too many closure variable in function.'' s)"
    by (simp add: UINT8_COUNT_def)
  have rl: "resolveLocal p nm s = (int j, s)" using resolveLocal_found [of p nm j s] h by simp
  have "resolveUpvalue (c # p # rest) nm s =
      (0, c # p\<lparr>locals := (locals p)(j := (locals p j)\<lparr>isCaptured := True\<rparr>)\<rparr> # rest,
       error ''Too many closure variable in function.'' s)"
    by (simp add: rl au Let_def)
  then show "namedVariable pp enc nm canAssign s =
        accessVariable pp enc canAssign OP_GET_UPVALUE OP_SET_UPVALUE 0
          ((error ''Too many closure variable in function.'' s)
             \<lparr>compilers :=
                c # p\<lparr>locals := (locals p)(j := (locals p j)\<lparr>isCaptured := True\<rparr>)\<rparr> # rest\<rparr>)"
    using namedVariable_not_local [of s c "p # rest" nm pp enc canAssign] h by simp
qed

text \<open>The states of the witness: a script whose pool holds 256 constants, and a function
  with 256 upvalues, none of them a local of its parent, in the block where \<open>a\<close> is a
  local.\<close>

definition full_pool :: state where
  "full_pool = setCurrentChunk (Chunk 0 0 [] [] (replicate 256 (NUMBER_VAL ''0''))) script0"

definition fullCompiler :: Compiler where
  "fullCompiler =
     functionCompiler\<lparr>upvalues := (\<lambda>i. \<lparr>index = word_of_nat i, isLocal = False\<rparr>),
                       func := setUpvalueCount 256 (func functionCompiler)\<rparr>"

definition full_upvalues :: state where
  "full_upvalues = local_a\<lparr>compilers := [fullCompiler, blockCompiler]\<rparr>"

theorem index_capacity_exceeded_witness:
  "length (constants (currentChunk full_pool)) = 256 \<and>
   fst (makeConstant (NUMBER_VAL ''1'') full_pool) = 0 \<and>
   diagnostics (snd (makeConstant (NUMBER_VAL ''1'') full_pool)) =
     [(syntheticToken [], ''Too many constants in one chunks.'')] \<and>
   emittedCode (emitConstant positional (NUMBER_VAL ''1'') full_pool) = [0, 0] \<and>
   length (constants (currentChunk (emitConstant positional (NUMBER_VAL ''1'') full_pool))) = 257 \<and>
   addUpvalue fullCompiler 1 True full_upvalues =
     (0, fullCompiler, error ''Too many closure variable in function.'' full_upvalues) \<and>
   (\<exists>s'. namedVariable (\<lambda>p s. None) positional (ident ''a'') False full_upvalues = Some s' \<and>
      emittedCode s' = [10, 0] \<and>
      diagnostics s' = [(syntheticToken [], ''Too many closure variable in function.'')])"
proof -
  let ?v = "NUMBER_VAL ''1''"
  let ?np = "\<lambda>(p::Precedence) (s::state). None :: state option"
  have len: "length (constants (currentChunk full_pool)) = 256"
    by (simp add: full_pool_def script0_def initCompiler_def Let_def setCurrentChunk_def
          currentChunk_def setChunk_def)
  have r: "ready full_pool" "emittedCode full_pool = []" "diagnostics full_pool = []"
    "\<not> panicMode (parser full_pool)" "previous (parser full_pool) = syntheticToken []"
    by (simp_all add: full_pool_def script0_def initCompiler_def Let_def setCurrentChunk_def
          currentChunk_def setChunk_def ready_def emittedCode_def emitted_def chunk_ok_def
          initScanner_def)
  note T = index_capacity_exceeded [of full_pool ?v positional fullCompiler 1 True
      blockCompiler "[]" "ident ''a''" "Suc 0" ?np False]
  note U = index_capacity_exceeded [of full_upvalues ?v positional fullCompiler 1 True
      blockCompiler "[]" "ident ''a''" "Suc 0" ?np False]
  have le: "256 \<le> length (constants (currentChunk full_pool))" using len by simp
  note T1 = T [THEN conjunct1, THEN mp, OF le]
  note T2 = T1 [THEN conjunct2, THEN conjunct2, THEN mp, OF r(1)]
  have a: "makeConstant ?v full_pool =
        (0, error ''Too many constants in one chunks.'' (withConstant ?v full_pool))"
    by (rule T1 [THEN conjunct1])
  have b: "emittedCode (emitConstant positional ?v full_pool) = [0, 0]"
    using T2 [THEN conjunct1] by (simp add: r positional_def)
  have c: "length (constants (currentChunk (emitConstant positional ?v full_pool))) = 257"
    using T2 [THEN conjunct2] len by simp
  have d: "diagnostics (snd (makeConstant ?v full_pool)) =
      [(syntheticToken [], ''Too many constants in one chunks.'')]"
    using error_reports(2) [of "withConstant ?v full_pool" "''Too many constants in one chunks.''"] r
    by (simp add: a withConstant_frame)
  have fu: "compilers full_upvalues = [fullCompiler, blockCompiler]"
    "\<not> panicMode (parser full_upvalues)" "previous (parser full_upvalues) = syntheticToken []"
    "diagnostics full_upvalues = []"
    by (simp_all add: full_upvalues_def local_a_state local_a_def markInitialized_def
          declaring_a_def addLocal_def beginScope_def updCurrent_def script0_def
          initCompiler_def Let_def initScanner_def UINT8_COUNT_def)
  have fc: "upvalueCount (func fullCompiler) = 256"
    "\<forall>i \<in> {0..<256}. \<not> (index (upvalues fullCompiler i) = 1 \<and> isLocal (upvalues fullCompiler i) = True)"
    "noLocalNamed fullCompiler (ident ''a'')"
    using witness_locals(2)
    by (simp_all add: fullCompiler_def setUpvalueCount_def noLocalNamed_def)
  have e: "addUpvalue fullCompiler 1 True full_upvalues =
     (0, fullCompiler, error ''Too many closure variable in function.'' full_upvalues)"
    using U [THEN conjunct2, THEN conjunct2, THEN conjunct1] fc by simp
  let ?s' = "(error ''Too many closure variable in function.'' full_upvalues)
             \<lparr>compilers := [fullCompiler,
                 blockCompiler\<lparr>locals := (locals blockCompiler)
                   (Suc 0 := (locals blockCompiler (Suc 0))\<lparr>isCaptured := True\<rparr>)\<rparr>]\<rparr>"
  have nv: "namedVariable ?np positional (ident ''a'') False full_upvalues =
      accessVariable ?np positional False OP_GET_UPVALUE OP_SET_UPVALUE 0 ?s'"
    using U [THEN conjunct2, THEN conjunct2, THEN conjunct2] fc fu(1) witness_locals(1)
    by (simp add: blockCompiler_def)
  have rd: "ready ?s' \<and> emittedCode ?s' = []"
    by (rule ready_Cons [of _ fullCompiler])
       (simp_all add: fullCompiler_def functionCompiler_def setUpvalueCount_def)
  have dg: "diagnostics ?s' = [(syntheticToken [], ''Too many closure variable in function.'')]"
    using error_reports(2) [of full_upvalues "''Too many closure variable in function.''"] fu
    by simp
  have f: "\<exists>s'. namedVariable ?np positional (ident ''a'') False full_upvalues = Some s' \<and>
      emittedCode s' = [10, 0] \<and>
      diagnostics s' = [(syntheticToken [], ''Too many closure variable in function.'')]"
    using rd dg
    by (simp add: nv accessVariable_read emittedCode_emitBytes positional_def emitBytes_frame)
  show ?thesis
    using len a b c d e f by simp
qed

section \<open>Tokens of the examples\<close>

text \<open>The tokens that the scanner delivers for a source of one line: \<open>tok t lx after\<close> is
  the token of kind \<open>t\<close> with the lexeme \<open>lx\<close>, followed in the source by \<open>after\<close>.\<close>

definition tok :: "TokenType \<Rightarrow> string \<Rightarrow> string \<Rightarrow> Token" where
  "tok t lx after = \<lparr>ttype = t, lexeme = lx, trailing = after, line = 1\<rparr>"

section \<open>The number of arguments of a call\<close>

text \<open>
  \<open>argumentList_counted\<close> is the loop of \<open>argumentList\<close> with a counter that does not
  wrap around: \<open>k\<close> is the number of arguments parsed so far. The 8-bit counter of the C
  code holds \<open>k mod 256\<close>, so that the C test \<open>argCount == 255\<close> is \<open>k mod 256 = 255\<close>.
\<close>

primrec argumentList_counted :: "nat \<Rightarrow> parse \<Rightarrow> nat \<Rightarrow> state \<Rightarrow> (nat \<times> state) option" where
  "argumentList_counted 0 pp k s = None"
| "argumentList_counted (Suc n) pp k s =
     do {
       s1 \<leftarrow> expression pp s;
       let s2 = (if k mod 256 = 255 then error ''Can't have more than 255 arguments.'' s1 else s1);
       let (m, s3) = match TOKEN_COMMA s2;
       if m then argumentList_counted n pp (Suc k) s3 else Some (Suc k, s3)
     }"

lemma byte_is_255: "(word_of_nat k :: uint8_t) = 255 \<longleftrightarrow> k mod 256 = 255"
proof -
  have "(word_of_nat k :: uint8_t) = 255 \<longleftrightarrow>
        unat (word_of_nat k :: uint8_t) = unat (255 :: uint8_t)"
    by (rule word_unat_eq_iff)
  then show ?thesis by (simp add: unat_of_nat)
qed

lemma argumentList_loop_counted:
  "argumentList_loop n pp (word_of_nat k) s =
     map_option (\<lambda>(m, s'). (word_of_nat m, s')) (argumentList_counted n pp k s)"
proof (induction n arbitrary: k s)
  case 0
  show ?case by simp
next
  case (Suc n)
  have inc: "(word_of_nat k :: uint8_t) + 1 = word_of_nat (Suc k)" by simp
  show ?case
  proof (cases "expression pp s")
    case None
    then show ?thesis by simp
  next
    case (Some s1)
    let ?s2 = "if k mod 256 = 255 then error ''Can't have more than 255 arguments.'' s1 else s1"
    show ?thesis
    proof (cases "fst (match TOKEN_COMMA ?s2)")
      case True
      then show ?thesis
        using Suc.IH [of "Suc k" "snd (match TOKEN_COMMA ?s2)"]
        by (simp add: Some byte_is_255 inc Let_def split_beta del: of_nat_Suc)
    next
      case False
      then show ?thesis
        by (simp add: Some byte_is_255 inc Let_def split_beta del: of_nat_Suc)
    qed
  qed
qed

text \<open>The counter that does not wrap counts: every round of the loop adds one.\<close>

lemma argumentList_counted_bounds:
  "argumentList_counted n pp k s = Some (m, s') \<Longrightarrow> k < m \<and> m \<le> k + n"
proof (induction n arbitrary: k s)
  case 0
  then show ?case by simp
next
  case (Suc n)
  then show ?case
    by (fastforce simp: Let_def split_beta bind_eq_Some_conv split: if_splits)
qed

text \<open>
  A call with \<open>m + 1\<close> arguments \<open>nil\<close>: after the first \<open>nil\<close>, the token kinds are \<open>m\<close>
  times a comma and \<open>nil\<close> (\<open>nilArguments m\<close>), and then the closing parenthesis.
\<close>

definition nilArguments :: "nat \<Rightarrow> TokenType list" where
  "nilArguments m = concat (replicate m [TOKEN_COMMA, TOKEN_NIL])"

lemma advance_next:
  assumes "scanner s = t # ts" "ttype t \<noteq> TOKEN_ERROR"
  shows "advance s = s\<lparr>parser := (parser s)\<lparr>previous := current (parser s), current := t\<rparr>,
                        scanner := ts\<rparr>"
  using assms by (simp add: advance_def scanToken_def Let_def)

lemma nil_expression:
  assumes "ttype (current (parser s)) = TOKEN_NIL" "scanner s = t # ts"
    and "ttype t = TOKEN_COMMA \<or> ttype t = TOKEN_RIGHT_PAREN"
  shows "expression (parsePrecendence (Suc (Suc p)) enc) s = Some (emitByte (enc OP_NIL) (advance s))"
proof -
  have e: "ttype t \<noteq> TOKEN_ERROR" using assms(3) by auto
  have a: "ttype (previous (parser (advance s))) = TOKEN_NIL"
    using assms(1) by (simp add: advance_frame)
  have c: "ttype (current (parser (emitByte (enc OP_NIL) (advance s)))) = ttype t"
    by (simp add: emitByte_frame advance_next [OF assms(2) e])
  have p: "previous (parser (emitByte (enc OP_NIL) (advance s))) = previous (parser (advance s))"
    by (simp add: emitByte_frame)
  have "precedence (getRule (ttype t)) = PREC_NONE"
    using assms(3) by (auto simp: mkRule_def)
  then show ?thesis
    using assms(3)
    by (auto simp: expression_def a c p callParseFn_def literal_def mkRule_def Let_def
          canAssign_match_def match_def check_def PREC_NONE_def PREC_ASSIGNMENT_def)
qed

lemma nil_round:
  fixes b :: bool and msg :: string and x :: uint8_t
  assumes "ready s" "scanner s = t # ts" "ttype t \<noteq> TOKEN_ERROR"
  defines "s2 \<equiv> (if b then error msg (emitByte x (advance s)) else emitByte x (advance s))"
  shows "ready s2" "emittedCode s2 = emittedCode s @ [x]" "current (parser s2) = t"
    "scanner s2 = ts" "previous (parser s2) = current (parser s)"
    "diagnostics s2 = (if b \<and> \<not> panicMode (parser s)
                       then diagnostics s @ [(current (parser s), msg)] else diagnostics s)"
    "panicMode (parser s2) = (b \<or> panicMode (parser s))"
    "hadError (parser s2) = (b \<and> \<not> panicMode (parser s) \<or> hadError (parser s))"
proof -
  note a = advance_next [OF assms(2,3)]
  have r: "ready (advance s)" using assms(1) by (simp add: advance_frame)
  show "ready s2" using r by (simp add: s2_def error_frame ready_emitByte)
  show "emittedCode s2 = emittedCode s @ [x]"
    using r by (simp add: s2_def error_frame emittedCode_emitByte advance_frame)
  show "current (parser s2) = t" by (simp add: s2_def error_frame emitByte_frame a)
  show "scanner s2 = ts" by (simp add: s2_def error_frame emitByte_frame a)
  show "previous (parser s2) = current (parser s)"
    by (simp add: s2_def error_frame emitByte_frame a)
  show "diagnostics s2 = (if b \<and> \<not> panicMode (parser s)
                       then diagnostics s @ [(current (parser s), msg)] else diagnostics s)"
    by (simp add: s2_def error_def errorAt_def emitByte_frame a)
  show "panicMode (parser s2) = (b \<or> panicMode (parser s))"
    by (simp add: s2_def error_def errorAt_def emitByte_frame a)
  show "hadError (parser s2) = (b \<and> \<not> panicMode (parser s) \<or> hadError (parser s))"
    by (auto simp: s2_def error_def errorAt_def emitByte_frame a)
qed

lemma advance_kept:
  assumes "scanner s = t # ts" "ttype t \<noteq> TOKEN_ERROR"
  shows "ready (advance s) = ready s" "emittedCode (advance s) = emittedCode s"
    "current (parser (advance s)) = t" "scanner (advance s) = ts"
    "previous (parser (advance s)) = current (parser s)"
    "diagnostics (advance s) = diagnostics s"
    "panicMode (parser (advance s)) = panicMode (parser s)"
    "hadError (parser (advance s)) = hadError (parser s)"
  by (simp_all add: advance_frame) (simp_all add: advance_next [OF assms])

lemma nilArguments_Suc:
  assumes "map ttype args = nilArguments (Suc m)"
  obtains c n args' where "args = c # n # args'" "ttype c = TOKEN_COMMA" "ttype n = TOKEN_NIL"
    "map ttype args' = nilArguments m"
  using assms by (cases args; cases "tl args") (auto simp: nilArguments_def)

lemma nil_arguments_loop:
  assumes "ready s" "ttype (current (parser s)) = TOKEN_NIL"
    and "scanner s = args @ close # after" "map ttype args = nilArguments m"
    and "ttype close = TOKEN_RIGHT_PAREN" "m < f"
    and ex: "\<And>s t ts. ttype (current (parser s)) = TOKEN_NIL \<Longrightarrow> scanner s = t # ts \<Longrightarrow>
       ttype t = TOKEN_COMMA \<or> ttype t = TOKEN_RIGHT_PAREN \<Longrightarrow>
       expression pp s = Some (emitByte (enc OP_NIL) (advance s))"
  shows "\<exists>s'. argumentList_counted f pp k s = Some (Suc (k + m), s') \<and>
     ready s' \<and> emittedCode s' = emittedCode s @ replicate (Suc m) (enc OP_NIL) \<and>
     current (parser s') = close \<and> scanner s' = after \<and>
     (panicMode (parser s) \<longrightarrow>
        diagnostics s' = diagnostics s \<and> panicMode (parser s') \<and>
        hadError (parser s') = hadError (parser s)) \<and>
     (\<not> panicMode (parser s) \<and> k mod 256 + m < 255 \<longrightarrow>
        diagnostics s' = diagnostics s \<and> \<not> panicMode (parser s') \<and>
        hadError (parser s') = hadError (parser s)) \<and>
     (\<not> panicMode (parser s) \<and> 255 \<le> k mod 256 + m \<longrightarrow>
        diagnostics s' = diagnostics s @
          [((current (parser s) # args) ! (2 * (255 - k mod 256)),
            ''Can't have more than 255 arguments.'')] \<and>
        panicMode (parser s') \<and> hadError (parser s'))"
  using assms(1-6)
proof (induction m arbitrary: s args k f)
  case 0
  let ?pp = pp
  let ?msg = "''Can't have more than 255 arguments.''"
  define s2 where "s2 = (if k mod 256 = 255 then error ?msg (emitByte (enc OP_NIL) (advance s))
             else emitByte (enc OP_NIL) (advance s))"
  have args: "args = []" using "0.prems"(4) by (simp add: nilArguments_def)
  then have sc: "scanner s = close # after" using "0.prems"(3) by simp
  have ne: "ttype close \<noteq> TOKEN_ERROR" using "0.prems"(5) by simp
  obtain f' where f: "f = Suc f'" using "0.prems"(6) by (cases f) auto
  have e: "expression ?pp s = Some (emitByte (enc OP_NIL) (advance s))"
    using "0.prems"(2) sc "0.prems"(5) by (simp add: ex)
  note r = nil_round [OF "0.prems"(1) sc ne, of "k mod 256 = 255" ?msg "enc OP_NIL",
      folded s2_def]
  have km: "k mod 256 < 256" by simp
  have m: "match TOKEN_COMMA s2 = (False, s2)"
    using r(3) "0.prems"(5) by (simp add: match_def check_def)
  have res: "argumentList_counted f ?pp k s = Some (Suc k, s2)"
    using m by (simp add: f e Let_def s2_def)
  show ?case
    using r km by (auto simp: res args)
next
  case (Suc m)
  let ?pp = pp
  let ?msg = "''Can't have more than 255 arguments.''"
  define s2 where "s2 = (if k mod 256 = 255 then error ?msg (emitByte (enc OP_NIL) (advance s))
             else emitByte (enc OP_NIL) (advance s))"
  obtain c n args' where a: "args = c # n # args'" "ttype c = TOKEN_COMMA" "ttype n = TOKEN_NIL"
    "map ttype args' = nilArguments m"
    using Suc.prems(4) by (rule nilArguments_Suc)
  have sc: "scanner s = c # (n # args' @ close # after)" using Suc.prems(3) a(1) by simp
  have ne: "ttype c \<noteq> TOKEN_ERROR" using a(2) by simp
  obtain f' where f: "f = Suc f'" "m < f'" using Suc.prems(6) by (cases f) auto
  have e: "expression ?pp s = Some (emitByte (enc OP_NIL) (advance s))"
    using Suc.prems(2) sc a(2) by (simp add: ex)
  note r = nil_round [OF Suc.prems(1) sc ne, of "k mod 256 = 255" ?msg "enc OP_NIL",
      folded s2_def]
  have m: "match TOKEN_COMMA s2 = (True, advance s2)"
    using r(3) a(2) by (simp add: match_def check_def)
  have nn: "ttype n \<noteq> TOKEN_ERROR" using a(3) by simp
  note v = advance_kept [OF r(4) nn]
  have r3: "ready (advance s2)" using r(1) v(1) by simp
  have c3: "ttype (current (parser (advance s2))) = TOKEN_NIL" using v(3) a(3) by simp
  have s3: "scanner (advance s2) = args' @ close # after" using v(4) by simp
  obtain s' where ih:
    "argumentList_counted f' ?pp (Suc k) (advance s2) = Some (Suc (Suc k + m), s')"
    "ready s'" "emittedCode s' = emittedCode (advance s2) @ replicate (Suc m) (enc OP_NIL)"
    "current (parser s') = close" "scanner s' = after"
    "panicMode (parser (advance s2)) \<longrightarrow>
        diagnostics s' = diagnostics (advance s2) \<and> panicMode (parser s') \<and>
        hadError (parser s') = hadError (parser (advance s2))"
    "\<not> panicMode (parser (advance s2)) \<and> Suc k mod 256 + m < 255 \<longrightarrow>
        diagnostics s' = diagnostics (advance s2) \<and> \<not> panicMode (parser s') \<and>
        hadError (parser s') = hadError (parser (advance s2))"
    "\<not> panicMode (parser (advance s2)) \<and> 255 \<le> Suc k mod 256 + m \<longrightarrow>
        diagnostics s' = diagnostics (advance s2) @
          [((current (parser (advance s2)) # args') ! (2 * (255 - Suc k mod 256)), ?msg)] \<and>
        panicMode (parser s') \<and> hadError (parser s')"
    using Suc.IH [OF r3 c3 s3 a(4) Suc.prems(5) f(2), of "Suc k"] by blast
  have res: "argumentList_counted f ?pp k s = Some (Suc (k + Suc m), s')"
    using m ih(1) by (simp add: f(1) e Let_def s2_def)
  have code: "emittedCode s' = emittedCode s @ replicate (Suc (Suc m)) (enc OP_NIL)"
    using ih(3) v(2) r(2) by (simp add: replicate_append_same)
  have km: "k mod 256 < 256" by simp
  have d1: "panicMode (parser s) \<longrightarrow>
        diagnostics s' = diagnostics s \<and> panicMode (parser s') \<and>
        hadError (parser s') = hadError (parser s)"
    using ih(6) v(6,7,8) r(6,7,8) by auto
  have d2: "\<not> panicMode (parser s) \<and> k mod 256 + Suc m < 255 \<longrightarrow>
        diagnostics s' = diagnostics s \<and> \<not> panicMode (parser s') \<and>
        hadError (parser s') = hadError (parser s)"
  proof
    assume h: "\<not> panicMode (parser s) \<and> k mod 256 + Suc m < 255"
    then have k: "k mod 256 \<noteq> 255" "Suc k mod 256 = Suc (k mod 256)"
      by (simp_all add: mod_Suc)
    then have "\<not> panicMode (parser (advance s2)) \<and> Suc k mod 256 + m < 255"
      using h v(7) r(7) by simp
    then show "diagnostics s' = diagnostics s \<and> \<not> panicMode (parser s') \<and>
        hadError (parser s') = hadError (parser s)"
      using ih(7) v(6,8) r(6,8) k(1) by simp
  qed
  have d3: "\<not> panicMode (parser s) \<and> 255 \<le> k mod 256 + Suc m \<longrightarrow>
        diagnostics s' = diagnostics s @
          [((current (parser s) # args) ! (2 * (255 - k mod 256)), ?msg)] \<and>
        panicMode (parser s') \<and> hadError (parser s')"
  proof
    assume h: "\<not> panicMode (parser s) \<and> 255 \<le> k mod 256 + Suc m"
    show "diagnostics s' = diagnostics s @
          [((current (parser s) # args) ! (2 * (255 - k mod 256)), ?msg)] \<and>
        panicMode (parser s') \<and> hadError (parser s')"
    proof (cases "k mod 256 = 255")
      case True
      then have "panicMode (parser (advance s2))" using v(7) r(7) by simp
      then have "diagnostics s' = diagnostics (advance s2) \<and> panicMode (parser s') \<and>
        hadError (parser s') = hadError (parser (advance s2))"
        using ih(6) by simp
      then show ?thesis using True h v(6,8) r(6,8) by simp
    next
      case False
      then have k: "Suc k mod 256 = Suc (k mod 256)" "k mod 256 < 255"
        using km by (simp_all add: mod_Suc)
      have "\<not> panicMode (parser (advance s2)) \<and> 255 \<le> Suc k mod 256 + m"
        using h False v(7) r(7) k by simp
      then have i: "diagnostics s' = diagnostics (advance s2) @
          [((current (parser (advance s2)) # args') ! (2 * (255 - Suc k mod 256)), ?msg)] \<and>
        panicMode (parser s') \<and> hadError (parser s')"
        using ih(8) by simp
      have "2 * (255 - k mod 256) = Suc (Suc (2 * (255 - Suc k mod 256)))"
        using k by simp
      then have "(current (parser s) # args) ! (2 * (255 - k mod 256)) =
          (n # args') ! (2 * (255 - Suc k mod 256))"
        by (simp add: a(1))
      then show ?thesis using i False v(3,6) r(6) by simp
    qed
  qed
  show ?case
    using ih(2,4,5) code d1 d2 d3 by (simp add: res)
qed
lemma advance_quiet:
  assumes "scanner s = [] \<or> ttype (hd (scanner s)) \<noteq> TOKEN_ERROR"
  shows "diagnostics (advance s) = diagnostics s"
    "panicMode (parser (advance s)) = panicMode (parser s)"
    "hadError (parser (advance s)) = hadError (parser s)"
  using assms
  by (cases "scanner s"; simp add: advance_def scanToken_def Let_def)+

lemma nilArguments_nth:
  assumes "map ttype args = nilArguments m" "i < m"
  shows "ttype (args ! (2 * i)) = TOKEN_COMMA \<and> ttype (args ! Suc (2 * i)) = TOKEN_NIL"
  using assms
proof (induction m arbitrary: args i)
  case 0
  then show ?case by simp
next
  case (Suc m)
  obtain c n args' where a: "args = c # n # args'" "ttype c = TOKEN_COMMA" "ttype n = TOKEN_NIL"
    "map ttype args' = nilArguments m"
    using Suc.prems(1) by (rule nilArguments_Suc)
  show ?case
  proof (cases i)
    case 0
    then show ?thesis using a by simp
  next
    case (Suc j)
    then show ?thesis using Suc.IH [OF a(4), of j] Suc.prems(2) a(1) by simp
  qed
qed

text \<open>
  Claim C10. The loop of \<open>argumentList\<close>, started with the 8-bit counter at \<open>k mod 256\<close>,
  does what the loop with the unbounded counter does from \<open>k\<close>, and returns its count
  modulo 256: \<open>error\<close> is called with the message of the 255 arguments when the counter
  is at 255 before the increment, the loop goes on all the same, and the increment of
  255 wraps to 0. \<open>call\<close> emits \<open>OP_CALL\<close> followed by this byte, the number of parsed
  arguments modulo 256.

  The last conjunct runs the code on a call with \<open>a = m + 1\<close> arguments \<open>nil\<close>: in a
  state \<open>t\<close> whose current token is the first \<open>nil\<close>, followed by \<open>m\<close> times a comma and
  \<open>nil\<close> and by the closing parenthesis, \<open>call\<close> with \<open>parsePrecendence\<close> and a bound
  \<open>n \<ge> m + 2\<close> returns. It has emitted \<open>OP_NIL\<close> for each of the \<open>a\<close> arguments, and then
  \<open>OP_CALL\<close> and the byte \<open>a mod 256\<close>. Outside panic mode, it has recorded the
  diagnostic of the 255 arguments once, at the 256th argument, and set \<open>hadError\<close>, when
  \<open>a \<ge> 256\<close>, and nothing when \<open>a \<le> 255\<close>; in panic mode \<open>errorAt\<close> records nothing.
\<close>

theorem argument_count_wraps:
  "argumentList_loop n pp (word_of_nat k) s =
     map_option (\<lambda>(m, s'). (word_of_nat m, s')) (argumentList_counted n pp k s) \<and>
   call n pp enc canAssign s =
     (if check TOKEN_RIGHT_PAREN s
      then Some (emitBytes (enc OP_CALL) 0
                  (consume TOKEN_RIGHT_PAREN ''Expect ')' after arguments.'' s))
      else Option.bind (argumentList_counted n pp 0 s)
             (\<lambda>(m, s1). Some (emitBytes (enc OP_CALL) (word_of_nat m)
                               (consume TOKEN_RIGHT_PAREN ''Expect ')' after arguments.'' s1)))) \<and>
   unat (word_of_nat m :: uint8_t) = m mod 256 \<and>
   argumentList_counted (Suc n) pp k s =
     Option.bind (expression pp s)
       (\<lambda>s1. let s2 = (if k mod 256 = 255
                        then error ''Can't have more than 255 arguments.'' s1 else s1)
              in if check TOKEN_COMMA s2 then argumentList_counted n pp (Suc k) (advance s2)
                 else Some (Suc k, s2)) \<and>
   (ready t \<and> ttype (current (parser t)) = TOKEN_NIL \<and>
    scanner t = args @ close # after \<and> map ttype args = nilArguments m \<and>
    ttype close = TOKEN_RIGHT_PAREN \<and> (after = [] \<or> ttype (hd after) \<noteq> TOKEN_ERROR) \<and>
    m + 2 \<le> n \<longrightarrow>
    (\<exists>t'. call n (parsePrecendence n enc) enc canAssign t = Some t' \<and>
       emittedCode t' =
         emittedCode t @ replicate (Suc m) (enc OP_NIL) @ [enc OP_CALL, word_of_nat (Suc m)] \<and>
       unat (word_of_nat (Suc m) :: uint8_t) = Suc m mod 256 \<and>
       previous (parser t') = close \<and>
       (panicMode (parser t) \<longrightarrow> diagnostics t' = diagnostics t) \<and>
       (\<not> panicMode (parser t) \<and> Suc m \<le> 255 \<longrightarrow>
          diagnostics t' = diagnostics t \<and> hadError (parser t') = hadError (parser t)) \<and>
       (\<not> panicMode (parser t) \<and> 256 \<le> Suc m \<longrightarrow>
          diagnostics t' =
            diagnostics t @ [(args ! 509, ''Can't have more than 255 arguments.'')] \<and>
          ttype (args ! 509) = TOKEN_NIL \<and> hadError (parser t'))))"
proof (intro conjI impI)
  show "argumentList_loop n pp (word_of_nat k) s =
     map_option (\<lambda>(m, s'). (word_of_nat m, s')) (argumentList_counted n pp k s)"
    by (rule argumentList_loop_counted)
  show "call n pp enc canAssign s =
     (if check TOKEN_RIGHT_PAREN s
      then Some (emitBytes (enc OP_CALL) 0
                  (consume TOKEN_RIGHT_PAREN ''Expect ')' after arguments.'' s))
      else Option.bind (argumentList_counted n pp 0 s)
             (\<lambda>(m, s1). Some (emitBytes (enc OP_CALL) (word_of_nat m)
                               (consume TOKEN_RIGHT_PAREN ''Expect ')' after arguments.'' s1))))"
    using argumentList_loop_counted [of n pp 0 s]
    by (cases "argumentList_counted n pp 0 s") (auto simp: call_def argumentList_def)
  show "unat (word_of_nat m :: uint8_t) = m mod 256"
    by (simp add: unat_of_nat)
  show "argumentList_counted (Suc n) pp k s =
     Option.bind (expression pp s)
       (\<lambda>s1. let s2 = (if k mod 256 = 255
                        then error ''Can't have more than 255 arguments.'' s1 else s1)
              in if check TOKEN_COMMA s2 then argumentList_counted n pp (Suc k) (advance s2)
                 else Some (Suc k, s2))"
    by (cases "expression pp s") (simp_all add: Let_def match_def)
next
  let ?msg = "''Can't have more than 255 arguments.''"
  assume h: "ready t \<and> ttype (current (parser t)) = TOKEN_NIL \<and>
    scanner t = args @ close # after \<and> map ttype args = nilArguments m \<and>
    ttype close = TOKEN_RIGHT_PAREN \<and> (after = [] \<or> ttype (hd after) \<noteq> TOKEN_ERROR) \<and>
    m + 2 \<le> n"
  then obtain p where n: "n = Suc (Suc p)" by (cases n; cases "n - 1") auto
  define pp' where "pp' = parsePrecendence n enc"
  have ex: "expression pp' s = Some (emitByte (enc OP_NIL) (advance s))"
    if "ttype (current (parser s)) = TOKEN_NIL" "scanner s = x # xs"
      "ttype x = TOKEN_COMMA \<or> ttype x = TOKEN_RIGHT_PAREN" for s x xs
    unfolding pp'_def n using that by (rule nil_expression)
  have mn: "m < n" using h by simp
  have "\<exists>u. (argumentList_counted n pp' 0 t = Some (Suc (0 + m), u)) \<and>
      (ready u) \<and>
      (emittedCode u = emittedCode t @ replicate (Suc m) (enc OP_NIL)) \<and>
      (current (parser u) = close) \<and>
      (scanner u = after) \<and>
      (panicMode (parser t) \<longrightarrow>
        diagnostics u = diagnostics t \<and> panicMode (parser u) \<and>
        hadError (parser u) = hadError (parser t)) \<and>
      (\<not> panicMode (parser t) \<and> 0 mod 256 + m < 255 \<longrightarrow>
        diagnostics u = diagnostics t \<and> \<not> panicMode (parser u) \<and>
        hadError (parser u) = hadError (parser t)) \<and>
      (\<not> panicMode (parser t) \<and> 255 \<le> 0 mod 256 + m \<longrightarrow>
        diagnostics u = diagnostics t @
          [((current (parser t) # args) ! (2 * (255 - 0 mod 256)), ?msg)] \<and>
        panicMode (parser u) \<and> hadError (parser u))"
  proof (rule nil_arguments_loop)
    show "ready t" "ttype (current (parser t)) = TOKEN_NIL" "scanner t = args @ close # after"
      "map ttype args = nilArguments m" "ttype close = TOKEN_RIGHT_PAREN" "m < n"
      using h by simp_all
    fix s0 :: state and x xs
    assume "ttype (current (parser s0)) = TOKEN_NIL" "scanner s0 = x # xs"
      "ttype x = TOKEN_COMMA \<or> ttype x = TOKEN_RIGHT_PAREN"
    then show "expression pp' s0 = Some (emitByte (enc OP_NIL) (advance s0))" by (rule ex)
  qed
  then obtain u where u:
    "argumentList_counted n pp' 0 t = Some (Suc (0 + m), u)"
    "ready u"
    "emittedCode u = emittedCode t @ replicate (Suc m) (enc OP_NIL)"
    "current (parser u) = close"
    "scanner u = after"
    "panicMode (parser t) \<longrightarrow>
        diagnostics u = diagnostics t \<and> panicMode (parser u) \<and>
        hadError (parser u) = hadError (parser t)"
    "\<not> panicMode (parser t) \<and> 0 mod 256 + m < 255 \<longrightarrow>
        diagnostics u = diagnostics t \<and> \<not> panicMode (parser u) \<and>
        hadError (parser u) = hadError (parser t)"
    "\<not> panicMode (parser t) \<and> 255 \<le> 0 mod 256 + m \<longrightarrow>
        diagnostics u = diagnostics t @
          [((current (parser t) # args) ! (2 * (255 - 0 mod 256)), ?msg)] \<and>
        panicMode (parser u) \<and> hadError (parser u)"
    by blast
  let ?v = "consume TOKEN_RIGHT_PAREN ''Expect ')' after arguments.'' u"
  let ?t' = "emitBytes (enc OP_CALL) (word_of_nat (Suc m)) ?v"
  have v: "?v = advance u" using u(4) h by (simp add: consume_def)
  have q: "scanner u = [] \<or> ttype (hd (scanner u)) \<noteq> TOKEN_ERROR" using u(5) h by simp
  note aq = advance_quiet [OF q]
  have rv: "ready ?v" using u(2) by (simp add: consume_frame)
  have nc: "\<not> check TOKEN_RIGHT_PAREN t" using h by (simp add: check_def)
  have "argumentList_loop n pp' 0 t = Some (word_of_nat (Suc m), u)"
    using argumentList_loop_counted [of n pp' 0 t] u(1) by simp
  then have c: "call n pp' enc canAssign t = Some ?t'"
    using nc by (simp add: call_def argumentList_def)
  have code: "emittedCode ?t' =
      emittedCode t @ replicate (Suc m) (enc OP_NIL) @ [enc OP_CALL, word_of_nat (Suc m)]"
    using rv u(3) by (simp add: emittedCode_emitBytes consume_frame)
  have prev: "previous (parser ?t') = close"
    using u(4) by (simp add: emitBytes_frame v advance_frame)
  have dg: "diagnostics ?t' = diagnostics u" "hadError (parser ?t') = hadError (parser u)"
    by (simp_all add: emitBytes_frame v aq)
  have tk: "(current (parser t) # args) ! (2 * (255 - 0 mod 256)) = args ! 509"
    by simp
  have nil: "ttype (args ! 509) = TOKEN_NIL" if "256 \<le> Suc m"
  proof -
    have "254 < m" using that by simp
    from nilArguments_nth [OF _ this] h have "ttype (args ! Suc (2 * 254)) = TOKEN_NIL"
      by blast
    then show ?thesis by simp
  qed
  have d1: "panicMode (parser t) \<longrightarrow> diagnostics ?t' = diagnostics t"
    using u(6) dg by simp
  have d2: "\<not> panicMode (parser t) \<and> Suc m \<le> 255 \<longrightarrow>
          diagnostics ?t' = diagnostics t \<and> hadError (parser ?t') = hadError (parser t)"
    using u(7) dg by simp
  have d3: "\<not> panicMode (parser t) \<and> 256 \<le> Suc m \<longrightarrow>
          diagnostics ?t' = diagnostics t @ [(args ! 509, ?msg)] \<and>
          ttype (args ! 509) = TOKEN_NIL \<and> hadError (parser ?t')"
    using u(8) dg tk nil by simp
  show "\<exists>t'. call n (parsePrecendence n enc) enc canAssign t = Some t' \<and>
       emittedCode t' =
         emittedCode t @ replicate (Suc m) (enc OP_NIL) @ [enc OP_CALL, word_of_nat (Suc m)] \<and>
       unat (word_of_nat (Suc m) :: uint8_t) = Suc m mod 256 \<and>
       previous (parser t') = close \<and>
       (panicMode (parser t) \<longrightarrow> diagnostics t' = diagnostics t) \<and>
       (\<not> panicMode (parser t) \<and> Suc m \<le> 255 \<longrightarrow>
          diagnostics t' = diagnostics t \<and> hadError (parser t') = hadError (parser t)) \<and>
       (\<not> panicMode (parser t) \<and> 256 \<le> Suc m \<longrightarrow>
          diagnostics t' =
            diagnostics t @ [(args ! 509, ''Can't have more than 255 arguments.'')] \<and>
          ttype (args ! 509) = TOKEN_NIL \<and> hadError (parser t'))"
    using c code prev d1 d2 d3 unfolding pp'_def
    by (intro exI [of _ ?t']) (simp add: unat_of_nat del: of_nat_Suc)
qed

text \<open>A call with 257 arguments \<open>nil\<close>, in the state that follows the opening
  parenthesis. No number is among the tokens, and their trailing text is left out.\<close>

definition manyArguments :: state where
  "manyArguments =
     advance (advance (initCompiler TYPE_SCRIPT (initScanner
       (tok TOKEN_LEFT_PAREN ''('' [] # tok TOKEN_NIL ''nil'' [] #
        concat (replicate 256 [tok TOKEN_COMMA '','' [], tok TOKEN_NIL ''nil'' []]) @
        [tok TOKEN_RIGHT_PAREN '')'' []]))))"

theorem argument_count_wraps_witness:
  "\<exists>t'. call 300 (parsePrecendence 300 positional) positional False manyArguments = Some t' \<and>
     emittedCode t' = replicate 257 1 @ [28, 1] \<and>
     diagnostics t' = [(tok TOKEN_NIL ''nil'' [], ''Can't have more than 255 arguments.'')] \<and>
     hadError (parser t')"
proof -
  let ?args = "concat (replicate 256 [tok TOKEN_COMMA '','' [], tok TOKEN_NIL ''nil'' []])"
  let ?close = "tok TOKEN_RIGHT_PAREN '')'' []"
  let ?s0 = "initCompiler TYPE_SCRIPT (initScanner
       (tok TOKEN_LEFT_PAREN ''('' [] # tok TOKEN_NIL ''nil'' [] # ?args @ [?close]))"
  have s0: "scanner ?s0 = tok TOKEN_LEFT_PAREN ''('' [] # (tok TOKEN_NIL ''nil'' [] # ?args @ [?close])"
    "diagnostics ?s0 = []" "\<not> panicMode (parser ?s0)"
    by (simp_all add: initCompiler_def initScanner_def Let_def)
  have r0: "ready ?s0" "emittedCode ?s0 = []"
    by (rule ready_initCompiler, rule emittedCode_initCompiler)
  have e1: "ttype (tok TOKEN_LEFT_PAREN ''('' []) \<noteq> TOKEN_ERROR"
    "ttype (tok TOKEN_NIL ''nil'' []) \<noteq> TOKEN_ERROR"
    by (simp_all add: tok_def)
  note a1 = advance_kept [OF s0(1) e1(1)]
  note a2 = advance_kept [OF a1(4) e1(2)]
  have m: "ready manyArguments" "current (parser manyArguments) = tok TOKEN_NIL ''nil'' []"
    "scanner manyArguments = ?args @ ?close # []" "diagnostics manyArguments = []"
    "\<not> panicMode (parser manyArguments)" "emittedCode manyArguments = []"
    unfolding manyArguments_def using a1 a2 s0 r0 by simp_all
  have ty: "map ttype ?args = nilArguments 256"
    by (simp add: nilArguments_def map_concat tok_def)
  have nth: "?args ! 509 = tok TOKEN_NIL ''nil'' []"
  proof -
    have "concat (replicate k [x, y]) ! Suc (2 * i) = y" if "i < k" for k i and x y :: Token
      using that
    proof (induction k arbitrary: i)
      case 0
      then show ?case by simp
    next
      case (Suc k)
      then show ?case by (cases i) simp_all
    qed
    from this [of 254 256] show ?thesis by simp
  qed
  have hyp: "ready manyArguments \<and> ttype (current (parser manyArguments)) = TOKEN_NIL \<and>
    scanner manyArguments = ?args @ ?close # [] \<and> map ttype ?args = nilArguments 256 \<and>
    ttype ?close = TOKEN_RIGHT_PAREN \<and> ([] = [] \<or> ttype (hd []) \<noteq> TOKEN_ERROR) \<and>
    256 + 2 \<le> (300::nat)"
    using m ty by (simp add: tok_def)
  from argument_count_wraps [where t = manyArguments and args = ?args and close = ?close
      and after = "[]" and m = 256 and n = 300 and enc = positional and canAssign = False]
    hyp
  obtain t' where t':
    "call 300 (parsePrecendence 300 positional) positional False manyArguments = Some t'"
    "emittedCode t' = emittedCode manyArguments @ replicate (Suc 256) (positional OP_NIL) @
        [positional OP_CALL, word_of_nat (Suc 256)]"
    "\<not> panicMode (parser manyArguments) \<and> 256 \<le> Suc 256 \<longrightarrow>
          diagnostics t' = diagnostics manyArguments @
            [(?args ! 509, ''Can't have more than 255 arguments.'')] \<and>
          ttype (?args ! 509) = TOKEN_NIL \<and> hadError (parser t')"
    by blast
  have w: "(word_of_nat (Suc 256) :: uint8_t) = 1" by simp
  show ?thesis
    using t' m nth w by (intro exI [of _ t']) (simp add: positional_def)
qed

section \<open>Two programs, compiled\<close>

text \<open>\<open>var a = 3; print a;\<close>\<close>

definition var_a_source :: "Token list" where
  "var_a_source =
     [tok TOKEN_VAR ''var'' '' a = 3; print a;'', tok TOKEN_IDENTIFIER ''a'' '' = 3; print a;'',
      tok TOKEN_EQUAL ''='' '' 3; print a;'', tok TOKEN_NUMBER ''3'' ''; print a;'',
      tok TOKEN_SEMICOLON '';'' '' print a;'', tok TOKEN_PRINT ''print'' '' a;'',
      tok TOKEN_IDENTIFIER ''a'' '';'', tok TOKEN_SEMICOLON '';'' []]"

lemmas driver_defs =
  errorAt_def error_def errorAtCurrent_def eofToken_def scanToken_def advance_def consume_def
  check_def match_def canAssign_match_def synchronize_def synchronize_loop.simps

lemmas emit_defs =
  initChunk_def GROW_CAPACITY_def GROW_ARRAY_def writeChunk_def addConstant_def
  currentChunk_def setChunk_def setCurrentChunk_def emitByte_def emitJump_def emitBytes_def
  emitLoop_def currentType_def emitReturn_def makeConstant_def emitConstant_def patchJump_def
  UINT16_MAX_def UINT8_MAX_def UINT8_COUNT_def

lemmas scope_defs =
  newFunction_def syntheticToken_def uninitLocal_def uninitUpvalue_def updCurrent_def
  initCompiler_def endCompiler_def beginScope_def topLocal_def endScope_def endScope_loop.simps
  identifiersEqual_def identifierConstant_def resolveLocal_def setUpvalueCount_def
  addUpvalue_def addLocal_def declareVariable_def currentScopeDepth_def parseVariable_def
  markInitialized_def defineVariable_def

lemmas prec_defs =
  PREC_NONE_def PREC_ASSIGNMENT_def PREC_OR_def PREC_AND_def PREC_EQUALITY_def
  PREC_COMPARISON_def PREC_TERM_def PREC_FACTOR_def PREC_UNARY_def PREC_CALL_def
  PREC_PRIMARY_def mkRule_def

lemmas strtod_defs =
  start_def isDigit_def isHexDigit_def isNChar_def isSpace_def exponent_def mantissa_def
  floating_def nanChars_def unsignedNumber_def strtod_def

lemmas expression_defs =
  expression_def binary_def argumentList_def call_def dot_def literal_def grouping_def
  strtod_defs number_def or_handler_def string_handler_def namedVariable_def variable_def
  super_handler_def this_handler_def unary_def and_handler_def callParseFn_def

lemmas statement_defs =
  block_def incrArity_def currentArity_def emitUpvalues_def compileFunction_def
  compileMethod_def currentHasSuperclass_def classDeclaration_def funDeclaration_def
  varDeclaration_def expressionStatement_def forStatement_def ifStatement_def
  printStatement_def returnStatement_def whileStatement_def initScanner_def compile_def

lemmas compiler_defs =
  driver_defs emit_defs scope_defs prec_defs expression_defs statement_defs

text \<open>
  Claim C4. Whatever the numbering of the opcodes, and with any bound of at least 5 on
  the depth of the calls, \<open>compile\<close> accepts \<open>var a = 3; print a;\<close> and returns a
  function whose code is \<open>OP_CONSTANT 1\<close>, \<open>OP_DEFINE_GLOBAL 0\<close>, \<open>OP_GET_GLOBAL 2\<close>,
  \<open>OP_PRINT\<close>, \<open>OP_NIL\<close>, \<open>OP_RETURN\<close> and whose constant pool holds the name \<open>a\<close>, the
  number 3 and the name \<open>a\<close> again, in this order.
\<close>

theorem compile_var_a:
  "\<exists>f s. compile (Suc (Suc (Suc (Suc (Suc n))))) enc var_a_source = Some (Some f, s) \<and>
     emitted (chunk f) =
       [enc OP_CONSTANT, 1, enc OP_DEFINE_GLOBAL, 0, enc OP_GET_GLOBAL, 2,
        enc OP_PRINT, enc OP_NIL, enc OP_RETURN] \<and>
     constants (chunk f) = [OBJ_STRING ''a'', NUMBER_VAL ''3'', OBJ_STRING ''a''] \<and>
     \<not> hadError (parser s) \<and> diagnostics s = []"
  by (simp add: var_a_source_def tok_def compiler_defs Let_def emitted_def)
     (simp add: eval_nat_numeral)

text \<open>\<open>a + b = c;\<close>\<close>

definition a_plus_b_source :: "Token list" where
  "a_plus_b_source =
     [tok TOKEN_IDENTIFIER ''a'' '' + b = c;'', tok TOKEN_PLUS ''+'' '' b = c;'',
      tok TOKEN_IDENTIFIER ''b'' '' = c;'', tok TOKEN_EQUAL ''='' '' c;'',
      tok TOKEN_IDENTIFIER ''c'' '';'', tok TOKEN_SEMICOLON '';'' []]"

text \<open>
  Claim C7, on the code. With any bound of at least 5, \<open>compile\<close> rejects
  \<open>a + b = c;\<close>: it returns \<open>NULL\<close> with \<open>hadError\<close> set, and the one diagnostic that it
  prints, at the token \<open>=\<close>, is the message of \<open>parsePrecendence\<close> as compiler.c spells
  it, \<open>Invalid assignement target.\<close>
\<close>

theorem compile_a_plus_b:
  "\<exists>s. compile (Suc (Suc (Suc (Suc (Suc n))))) enc a_plus_b_source = Some (None, s) \<and>
     diagnostics s = [(tok TOKEN_EQUAL ''='' '' c;'', ''Invalid assignement target.'')] \<and>
     ''Invalid assignement target.'' \<noteq> ''Invalid assignment target.'' \<and>
     hadError (parser s)"
  by (simp add: a_plus_b_source_def tok_def compiler_defs Let_def)

section \<open>Invariants of the expression compiler\<close>

text \<open>
  A property \<open>I\<close> of the state is kept by every expression handler when it is kept by
  the steps of which the handlers are made: a diagnostic, \<open>advance\<close>, the emission of a
  byte, the patch of a jump, a new number or string constant, and the changes that
  \<open>resolveUpvalue\<close> makes to the compilers (\<open>resolved\<close>).
\<close>

definition resolved :: "Token \<Rightarrow> state \<Rightarrow> state" where
  "resolved nm s = (case resolveUpvalue (compilers s) nm s of (a, chain, s3) \<Rightarrow> s3\<lparr>compilers := chain\<rparr>)"

definition stable_expr :: "(state \<Rightarrow> bool) \<Rightarrow> bool" where
  "stable_expr I \<longleftrightarrow>
     (\<forall>s t m. I s \<longrightarrow> I (errorAt t m s)) \<and>
     (\<forall>s. I s \<longrightarrow> I (advance s)) \<and>
     (\<forall>s b. I s \<longrightarrow> I (emitByte b s)) \<and>
     (\<forall>s off. I s \<longrightarrow> I (patchJump off s)) \<and>
     (\<forall>s x. I s \<longrightarrow> I (withConstant (NUMBER_VAL x) s)) \<and>
     (\<forall>s x. I s \<longrightarrow> I (withConstant (OBJ_STRING x) s)) \<and>
     (\<forall>s nm. I s \<longrightarrow> I (resolved nm s))"

definition preserves :: "(state \<Rightarrow> bool) \<Rightarrow> (state \<Rightarrow> state option) \<Rightarrow> bool" where
  "preserves I f \<longleftrightarrow> (\<forall>s s'. I s \<longrightarrow> f s = Some s' \<longrightarrow> I s')"

lemma preservesD: "preserves I f \<Longrightarrow> I s \<Longrightarrow> f s = Some s' \<Longrightarrow> I s'"
  by (auto simp: preserves_def)

lemma preservesI: "(\<And>s s'. I s \<Longrightarrow> f s = Some s' \<Longrightarrow> I s') \<Longrightarrow> preserves I f"
  by (auto simp: preserves_def)

lemma stable_steps:
  assumes "stable_expr I" "I s"
  shows "I (errorAt tk m s)" "I (error m s)" "I (errorAtCurrent m s)" "I (advance s)"
    "I (consume t m s)" "I (snd (match t s))" "I (snd (canAssign_match ca t s))"
    "I (emitByte b s)" "I (emitBytes b b' s)" "I (snd (emitJump b s))" "I (patchJump off s)"
    "I (snd (makeConstant (NUMBER_VAL x) s))" "I (snd (makeConstant (OBJ_STRING x) s))"
    "I (emitConstant enc (NUMBER_VAL x) s)" "I (emitConstant enc (OBJ_STRING x) s)"
    "I (snd (identifierConstant nm s))" "I (snd (resolveLocal c nm s))" "I (resolved nm s)"
proof -
  have st: "\<forall>s t m. I s \<longrightarrow> I (errorAt t m s)" "\<forall>s. I s \<longrightarrow> I (advance s)"
    "\<forall>s b. I s \<longrightarrow> I (emitByte b s)" "\<forall>s off. I s \<longrightarrow> I (patchJump off s)"
    "\<forall>s x. I s \<longrightarrow> I (withConstant (NUMBER_VAL x) s)"
    "\<forall>s x. I s \<longrightarrow> I (withConstant (OBJ_STRING x) s)"
    "\<forall>s nm. I s \<longrightarrow> I (resolved nm s)"
    using assms(1) unfolding stable_expr_def by simp_all
  have er: "I (errorAt tk m s)" if "I s" for s tk m
    using st(1) that by (elim allE impE)
  have ad: "I (advance s)" if "I s" for s
    using st(2) that by (elim allE impE)
  have eb: "I (emitByte b s)" if "I s" for s b
    using st(3) that by (elim allE impE)
  have pj: "I (patchJump off s)" if "I s" for s off
    using st(4) that by (elim allE impE)
  have wn: "I (withConstant (NUMBER_VAL x) s)" if "I s" for s x
    using st(5) that by (elim allE impE)
  have ws: "I (withConstant (OBJ_STRING x) s)" if "I s" for s x
    using st(6) that by (elim allE impE)
  have rs: "I (resolved nm s)" if "I s" for s nm
    using st(7) that by (elim allE impE)
  note s = assms(2)
  show "I (errorAt tk m s)" by (rule er [OF s])
  show "I (advance s)" by (rule ad [OF s])
  show "I (emitByte b s)" by (rule eb [OF s])
  show "I (patchJump off s)" by (rule pj [OF s])
  show "I (resolved nm s)" by (rule rs [OF s])
  show "I (error m s)" unfolding error_def by (rule er [OF s])
  show "I (errorAtCurrent m s)" unfolding errorAtCurrent_def by (rule er [OF s])
  show "I (consume t m s)"
    unfolding consume_def errorAtCurrent_def by (simp add: er [OF s] ad [OF s])
  show "I (snd (match t s))" unfolding match_def by (simp add: s ad [OF s])
  show "I (snd (canAssign_match ca t s))"
    unfolding canAssign_match_def match_def by (simp add: s ad [OF s])
  show "I (emitBytes b b' s)" unfolding emitBytes_def by (rule eb [OF eb [OF s]])
  show "I (snd (emitJump b s))"
    unfolding emitJump_def Let_def by (simp add: eb [OF eb [OF eb [OF s]]])
  have mk: "I (snd (makeConstant v s))" if "I (withConstant v s)" for v
    unfolding makeConstant_cases error_def by (simp add: that er [OF that])
  show n: "I (snd (makeConstant (NUMBER_VAL x) s))" by (rule mk [OF wn [OF s]])
  show o: "I (snd (makeConstant (OBJ_STRING x) s))" by (rule mk [OF ws [OF s]])
  show "I (emitConstant enc (NUMBER_VAL x) s)"
    by (simp add: emitConstant_def split_beta emitBytes_def eb [OF eb [OF n]])
  show "I (emitConstant enc (OBJ_STRING x) s)"
    by (simp add: emitConstant_def split_beta emitBytes_def eb [OF eb [OF o]])
  show "I (snd (identifierConstant nm s))"
    unfolding identifierConstant_def by (rule mk [OF ws [OF s]])
  have "I (snd (resolveLocal_loop c nm k s))" for k
  proof (induction k)
    case 0
    show ?case by (simp add: s)
  next
    case (Suc k)
    show ?case using Suc by (simp add: Let_def error_def er [OF s] s)
  qed
  then show "I (snd (resolveLocal c nm s))" by (simp add: resolveLocal_def)
qed

lemma kept_accessVariable:
  assumes "stable_expr I" "\<forall>p. preserves I (pp p)" "I s"
    and "accessVariable pp enc ca getOp setOp arg s = Some s'"
  shows "I s'"
proof (cases "fst (canAssign_match ca TOKEN_EQUAL s)")
  case True
  then obtain s7 where "pp PREC_ASSIGNMENT (snd (canAssign_match ca TOKEN_EQUAL s)) = Some s7"
    "s' = emitBytes (enc setOp) arg s7"
    using assms(4) by (auto simp: accessVariable_def split_beta expression_def bind_eq_Some_conv)
  moreover have "I (snd (canAssign_match ca TOKEN_EQUAL s))" using assms(3) by (rule stable_steps [OF assms(1)])
  ultimately show ?thesis
    using assms(1,2) by (auto intro!: stable_steps [OF assms(1)] dest: preservesD [of I "pp PREC_ASSIGNMENT"])
next
  case False
  then have "s' = emitBytes (enc getOp) arg (snd (canAssign_match ca TOKEN_EQUAL s))"
    using assms(4) by (auto simp: accessVariable_def split_beta)
  then show ?thesis using assms(1,3) by (simp add: stable_steps [OF assms(1)])
qed

lemma namedVariable_steps:
  "namedVariable pp enc nm ca s =
     (case compilers s of [] \<Rightarrow> None
      | c # cs \<Rightarrow>
          if fst (resolveLocal c nm s) \<noteq> -1
          then accessVariable pp enc ca OP_GET_LOCAL OP_SET_LOCAL
                 (word_of_int (fst (resolveLocal c nm s))) (snd (resolveLocal c nm s))
          else if fst (resolveUpvalue (compilers s) nm (snd (resolveLocal c nm s))) \<noteq> -1
          then accessVariable pp enc ca OP_GET_UPVALUE OP_SET_UPVALUE
                 (word_of_int (fst (resolveUpvalue (compilers s) nm (snd (resolveLocal c nm s)))))
                 (resolved nm (snd (resolveLocal c nm s)))
          else accessVariable pp enc ca OP_GET_GLOBAL OP_SET_GLOBAL
                 (fst (identifierConstant nm (resolved nm (snd (resolveLocal c nm s)))))
                 (snd (identifierConstant nm (resolved nm (snd (resolveLocal c nm s))))))"
proof -
  have c: "compilers (snd (resolveLocal c nm s)) = compilers s" for c
  proof -
    have "compilers (snd (resolveLocal_loop c nm k s)) = compilers s" for k
      by (induction k) (simp_all add: Let_def error_frame)
    then show ?thesis by (simp add: resolveLocal_def)
  qed
  show ?thesis
    by (cases "compilers s")
       (simp_all add: namedVariable_def accessVariable_def resolved_def split_beta Let_def c)
qed

lemma kept_namedVariable:
  assumes "stable_expr I" "\<forall>p. preserves I (pp p)" "I s"
    and "namedVariable pp enc nm ca s = Some s'"
  shows "I s'"
proof -
  note ss = stable_steps [OF assms(1)]
  obtain c cs where cs: "compilers s = c # cs"
    using assms(4) by (cases "compilers s") (auto simp: namedVariable_def)
  let ?s1 = "snd (resolveLocal c nm s)"
  have i1: "I ?s1" using assms(3) by (rule ss)
  have i2: "I (resolved nm ?s1)" using i1 by (rule ss)
  have i3: "I (snd (identifierConstant nm (resolved nm ?s1)))" using i2 by (rule ss)
  show ?thesis
    using assms(4) kept_accessVariable [OF assms(1,2)] i1 i2 i3
    by (auto simp: namedVariable_steps cs split: if_splits)
qed

lemma kept_binary:
  assumes "stable_expr I" "\<forall>p. preserves I (pp p)" "I s" "binary pp enc ca s = Some s'"
  shows "I s'"
proof -
  note ss = stable_steps [OF assms(1)]
  obtain s1 where s1: "pp (precedence (getRule (ttype (previous (parser s)))) + 1) s = Some s1"
    using assms(4) by (auto simp: binary_def Let_def bind_eq_Some_conv)
  have "I s1" using assms(2,3) s1 by (auto dest: preservesD)
  then show ?thesis
    using assms(1,4) s1 by (auto simp: binary_def Let_def ss split: if_splits)
qed

lemma kept_unary:
  assumes "stable_expr I" "\<forall>p. preserves I (pp p)" "I s" "unary pp enc ca s = Some s'"
  shows "I s'"
proof -
  note ss = stable_steps [OF assms(1)]
  obtain s1 where s1: "pp PREC_UNARY s = Some s1"
    using assms(4) by (auto simp: unary_def Let_def bind_eq_Some_conv)
  have "I s1" using assms(2,3) s1 by (auto dest: preservesD)
  then show ?thesis
    using assms(1,4) s1 by (auto simp: unary_def Let_def ss split: if_splits)
qed

lemma kept_grouping:
  assumes "stable_expr I" "\<forall>p. preserves I (pp p)" "I s" "grouping pp ca s = Some s'"
  shows "I s'"
proof -
  note ss = stable_steps [OF assms(1)]
  obtain s1 where s1: "pp PREC_ASSIGNMENT s = Some s1"
    using assms(4) by (auto simp: grouping_def expression_def bind_eq_Some_conv)
  have "I s1" using assms(2,3) s1 by (auto dest: preservesD)
  then show ?thesis
    using assms(1,4) s1 by (auto simp: grouping_def expression_def ss)
qed

lemma kept_and:
  assumes "stable_expr I" "\<forall>p. preserves I (pp p)" "I s" "and_handler pp enc ca s = Some s'"
  shows "I s'"
proof -
  note ss = stable_steps [OF assms(1)]
  let ?s2 = "emitByte (enc OP_POP) (snd (emitJump (enc OP_JUMP_IF_FALSE) s))"
  obtain s3 where s3: "pp PREC_AND ?s2 = Some s3"
    and s': "s' = patchJump (fst (emitJump (enc OP_JUMP_IF_FALSE) s)) s3"
    using assms(4) by (auto simp: and_handler_def Let_def split_beta bind_eq_Some_conv)
  have "I ?s2" using assms(1,3) by (simp add: ss)
  then have "I s3" using assms(2) s3 by (auto dest: preservesD)
  then show ?thesis using assms(1) s' by (simp add: ss)
qed

lemma kept_or:
  assumes "stable_expr I" "\<forall>p. preserves I (pp p)" "I s" "or_handler pp enc ca s = Some s'"
  shows "I s'"
proof -
  note ss = stable_steps [OF assms(1)]
  let ?s1 = "snd (emitJump (enc OP_JUMP_IF_FALSE) s)"
  let ?s2 = "snd (emitJump (enc OP_JUMP) ?s1)"
  let ?s4 = "emitByte (enc OP_POP) (patchJump (fst (emitJump (enc OP_JUMP_IF_FALSE) s)) ?s2)"
  obtain s5 where s5: "pp PREC_OR ?s4 = Some s5"
    and s': "s' = patchJump (fst (emitJump (enc OP_JUMP) ?s1)) s5"
    using assms(4) by (auto simp: or_handler_def Let_def split_beta bind_eq_Some_conv)
  have "I ?s4" using assms(1,3) by (simp add: ss)
  then have "I s5" using assms(2) s5 by (auto dest: preservesD)
  then show ?thesis using assms(1) s' by (simp add: ss)
qed

lemma kept_argumentList_loop:
  assumes "stable_expr I" "\<forall>p. preserves I (pp p)"
  shows "I s \<Longrightarrow> argumentList_loop n pp k s = Some (k', s') \<Longrightarrow> I s'"
proof (induction n arbitrary: k s)
  case 0
  then show ?case by simp
next
  case (Suc n)
  obtain s1 where s1: "pp PREC_ASSIGNMENT s = Some s1"
    using Suc.prems(2) by (auto simp: expression_def bind_eq_Some_conv)
  have i1: "I s1" using assms(2) Suc.prems(1) s1 by (auto dest: preservesD)
  let ?s2 = "if k = 255 then error ''Can't have more than 255 arguments.'' s1 else s1"
  have i2: "I ?s2" using assms(1) i1 by (simp add: stable_steps [OF assms(1)])
  have i3: "I (snd (match TOKEN_COMMA ?s2))" using i2 by (rule stable_steps [OF assms(1)])
  show ?case
  proof (cases "fst (match TOKEN_COMMA ?s2)")
    case True
    then have "argumentList_loop n pp (k + 1) (snd (match TOKEN_COMMA ?s2)) = Some (k', s')"
      using Suc.prems(2) s1 by (simp add: expression_def split_beta Let_def)
    then show ?thesis using Suc.IH i3 by blast
  next
    case False
    then have "s' = snd (match TOKEN_COMMA ?s2)"
      using Suc.prems(2) s1 by (simp add: expression_def split_beta Let_def)
    then show ?thesis using i3 by simp
  qed
qed

lemma kept_argumentList:
  assumes "stable_expr I" "\<forall>p. preserves I (pp p)" "I s"
    and "argumentList n pp s = Some (k', s')"
  shows "I s'"
proof -
  note ss = stable_steps [OF assms(1)]
  obtain s1 where s1: "(if \<not> check TOKEN_RIGHT_PAREN s then argumentList_loop n pp 0 s
                        else Some (0, s)) = Some (k', s1)"
    and s': "s' = consume TOKEN_RIGHT_PAREN ''Expect ')' after arguments.'' s1"
    using assms(4) by (auto simp: argumentList_def bind_eq_Some_conv)
  have "I s1"
    using s1 assms(3) kept_argumentList_loop [OF assms(1,2), of s n 0 k' s1]
    by (auto split: if_splits)
  then show ?thesis using assms(1) s' by (simp add: ss)
qed

lemma kept_call:
  assumes "stable_expr I" "\<forall>p. preserves I (pp p)" "I s" "call n pp enc ca s = Some s'"
  shows "I s'"
proof -
  note ss = stable_steps [OF assms(1)]
  obtain k s1 where "argumentList n pp s = Some (k, s1)" "s' = emitBytes (enc OP_CALL) k s1"
    using assms(4) by (auto simp: call_def bind_eq_Some_conv)
  then show ?thesis
    using kept_argumentList [OF assms(1,2,3)] assms(1) by (simp add: ss)
qed

lemma kept_dot:
  assumes "stable_expr I" "\<forall>p. preserves I (pp p)" "I s" "dot n pp enc ca s = Some s'"
  shows "I s'"
proof -
  note ss = stable_steps [OF assms(1)]
  let ?s1 = "consume TOKEN_IDENTIFIER ''Expect property name after '.'.'' s"
  let ?s2 = "snd (identifierConstant (previous (parser ?s1)) ?s1)"
  let ?nm = "fst (identifierConstant (previous (parser ?s1)) ?s1)"
  let ?s3 = "snd (canAssign_match ca TOKEN_EQUAL ?s2)"
  let ?s4 = "snd (match TOKEN_LEFT_PAREN ?s3)"
  have i3: "I ?s3" using assms(1,3) by (simp add: ss)
  have i4: "I ?s4" using i3 by (rule ss)
  show ?thesis
  proof (cases "fst (canAssign_match ca TOKEN_EQUAL ?s2)")
    case True
    then obtain s4 where "pp PREC_ASSIGNMENT ?s3 = Some s4"
      "s' = emitBytes (enc OP_SET_PROPERTY) ?nm s4"
      using assms(4) by (auto simp: dot_def Let_def split_beta expression_def bind_eq_Some_conv)
    then show ?thesis
      using assms(1,2) i3 by (auto intro!: ss dest: preservesD)
  next
    case False
    show ?thesis
    proof (cases "fst (match TOKEN_LEFT_PAREN ?s3)")
      case True
      then obtain k s5 where "argumentList n pp ?s4 = Some (k, s5)"
        "s' = emitByte k (emitBytes (enc OP_INVOKE) ?nm s5)"
        using assms(4) False by (auto simp: dot_def Let_def split_beta bind_eq_Some_conv)
      then show ?thesis
        using kept_argumentList [OF assms(1,2) i4] assms(1) by (simp add: ss)
    next
      case f2: False
      then have "s' = emitBytes (enc OP_GET_PROPERTY) ?nm ?s4"
        using assms(4) False by (auto simp: dot_def Let_def split_beta)
      then show ?thesis using assms(1) i4 by (simp add: ss)
    qed
  qed
qed

lemma kept_super:
  assumes "stable_expr I" "\<forall>p. preserves I (pp p)" "I s" "super_handler n pp enc ca s = Some s'"
  shows "I s'"
proof -
  note ss = stable_steps [OF assms(1)]
  let ?s1 = "case classCompilers s of
                  [] \<Rightarrow> error ''Can't use 'super' outside of a class.'' s
                | cc # ccs \<Rightarrow>
                    if \<not> hasSuperclass cc
                    then error ''Can't use 'super' in a class with no superclass.'' s
                    else s"
  let ?s3 = "consume TOKEN_IDENTIFIER ''Expect superclass method name.''
               (consume TOKEN_DOT ''Expect '.' after 'super'.'' ?s1)"
  let ?s4 = "snd (identifierConstant (previous (parser ?s3)) ?s3)"
  let ?nm = "fst (identifierConstant (previous (parser ?s3)) ?s3)"
  have i1: "I ?s1" using assms(1,3) by (auto simp: ss split: list.splits)
  have i4: "I ?s4" using assms(1) i1 by (simp add: ss)
  obtain s5 where s5: "namedVariable pp enc (syntheticToken ''this'') False ?s4 = Some s5"
    using assms(4) by (auto simp: super_handler_def Let_def split_beta bind_eq_Some_conv)
  have i5: "I s5" using kept_namedVariable [OF assms(1,2) i4 s5] .
  have i6: "I (snd (match TOKEN_LEFT_PAREN s5))" using i5 by (rule ss)
  show ?thesis
  proof (cases "fst (match TOKEN_LEFT_PAREN s5)")
    case True
    then obtain k s7 s8 where a: "argumentList n pp (snd (match TOKEN_LEFT_PAREN s5)) = Some (k, s7)"
      and b: "namedVariable pp enc (syntheticToken ''super'') False s7 = Some s8"
      and c: "s' = emitByte k (emitBytes (enc OP_SUPER_INVOKE) ?nm s8)"
      using assms(4) s5 by (auto simp: super_handler_def Let_def split_beta bind_eq_Some_conv)
    have "I s7" using kept_argumentList [OF assms(1,2) i6 a] .
    then have "I s8" using kept_namedVariable [OF assms(1,2) _ b] by simp
    then show ?thesis using assms(1) c by (simp add: ss)
  next
    case False
    then obtain s7 where b: "namedVariable pp enc (syntheticToken ''super'') False
                               (snd (match TOKEN_LEFT_PAREN s5)) = Some s7"
      and c: "s' = emitBytes (enc OP_GET_SUPER) ?nm s7"
      using assms(4) s5 by (auto simp: super_handler_def Let_def split_beta bind_eq_Some_conv)
    have "I s7" using kept_namedVariable [OF assms(1,2) i6 b] .
    then show ?thesis using assms(1) c by (simp add: ss)
  qed
qed

lemma kept_callParseFn:
  assumes "stable_expr I" "\<forall>p. preserves I (pp p)" "I s"
    and "callParseFn n pp enc fn ca s = Some s'"
  shows "I s'"
proof (cases fn)
  case fn_grouping
  then show ?thesis using assms kept_grouping by (simp add: callParseFn_def)
next
  case fn_call
  then show ?thesis using assms kept_call by (simp add: callParseFn_def)
next
  case fn_dot
  then show ?thesis using assms kept_dot by (simp add: callParseFn_def)
next
  case fn_unary
  then show ?thesis using assms kept_unary by (simp add: callParseFn_def)
next
  case fn_binary
  then show ?thesis using assms kept_binary by (simp add: callParseFn_def)
next
  case fn_variable
  then show ?thesis using assms kept_namedVariable by (simp add: callParseFn_def variable_def)
next
  case fn_string
  then show ?thesis
    using assms by (auto simp: callParseFn_def string_handler_def Let_def stable_steps [OF assms(1)])
next
  case fn_number
  then show ?thesis using assms by (auto simp: callParseFn_def number_def stable_steps [OF assms(1)])
next
  case fn_and
  then show ?thesis using assms kept_and by (simp add: callParseFn_def)
next
  case fn_or
  then show ?thesis using assms kept_or by (simp add: callParseFn_def)
next
  case fn_literal
  then show ?thesis
    using assms by (auto simp: callParseFn_def literal_def Let_def stable_steps [OF assms(1)])
next
  case fn_super
  then show ?thesis using assms kept_super by (simp add: callParseFn_def)
next
  case fn_this
  then show ?thesis
    using assms kept_namedVariable
    by (auto simp: callParseFn_def this_handler_def variable_def stable_steps [OF assms(1)] split: list.splits)
qed

lemma kept_infix_loop:
  assumes "stable_expr I" "\<And>fn ca s s'. I s \<Longrightarrow> callFn fn ca s = Some s' \<Longrightarrow> I s'"
  shows "I s \<Longrightarrow> infix_loop n callFn prec ca s = Some s' \<Longrightarrow> I s'"
proof (induction n arbitrary: s)
  case 0
  then show ?case by simp
next
  case (Suc n)
  show ?case
  proof (cases "prec \<le> precedence (getRule (ttype (current (parser s))))")
    case True
    then obtain fn s2 where "callFn fn ca (advance s) = Some s2"
      "infix_loop n callFn prec ca s2 = Some s'"
      using Suc.prems(2) by (auto simp: Let_def bind_eq_Some_conv split: option.splits)
    moreover have "I (advance s)" using Suc.prems(1) by (rule stable_steps [OF assms(1)])
    ultimately show ?thesis using assms(2) Suc.IH by blast
  next
    case False
    then show ?thesis using Suc.prems by simp
  qed
qed

theorem kept_parsePrecendence:
  assumes "stable_expr I"
  shows "I s \<Longrightarrow> parsePrecendence n enc prec s = Some s' \<Longrightarrow> I s'"
proof (induction n arbitrary: prec s s')
  case 0
  then show ?case by simp
next
  case (Suc n)
  have pp: "\<forall>p. preserves I (parsePrecendence n enc p)"
    using Suc.IH by (auto simp: preserves_def)
  have i1: "I (advance s)" using Suc.prems(1) by (rule stable_steps [OF assms])
  show ?case
  proof (cases "prefixRule (getRule (ttype (previous (parser (advance s)))))")
    case None
    then show ?thesis using Suc.prems(2) assms i1 by (auto simp: Let_def stable_steps [OF assms])
  next
    case (Some fn)
    then obtain s2 s3 where
      a: "callParseFn n (parsePrecendence n enc) enc fn (prec \<le> PREC_ASSIGNMENT) (advance s) = Some s2"
      and b: "infix_loop n (callParseFn n (parsePrecendence n enc) enc) prec
                (prec \<le> PREC_ASSIGNMENT) s2 = Some s3"
      and c: "s' = (if fst (canAssign_match (prec \<le> PREC_ASSIGNMENT) TOKEN_EQUAL s3)
                    then error ''Invalid assignement target.''
                           (snd (canAssign_match (prec \<le> PREC_ASSIGNMENT) TOKEN_EQUAL s3))
                    else snd (canAssign_match (prec \<le> PREC_ASSIGNMENT) TOKEN_EQUAL s3))"
      using Suc.prems(2) by (auto simp: Let_def split_beta bind_eq_Some_conv)
    have i2: "I s2" using kept_callParseFn [OF assms pp i1 a] .
    have i3: "I s3"
      using kept_infix_loop [OF assms, of "callParseFn n (parsePrecendence n enc) enc" s2 n prec
          "prec \<le> PREC_ASSIGNMENT" s3] kept_callParseFn [OF assms pp] i2 b
      by blast
    show ?thesis using assms i3 c by (simp add: stable_steps [OF assms])
  qed
qed
section \<open>Invariants of the statement compiler\<close>

text \<open>
  The statements add these steps to those of the expressions: the scopes, the locals,
  a new compiler, the end of a compiler (\<open>endedFunction\<close>: the compiler is unlinked and
  its function becomes a constant of the enclosing chunk), the chain of the class
  compilers, and the end of the panic mode.
\<close>

definition endedFunction :: "state \<Rightarrow> state" where
  "endedFunction s =
     (case compilers s of [] \<Rightarrow> s
      | c # cs \<Rightarrow> withConstant (OBJ_FUNCTION (func c)) (s\<lparr>compilers := cs\<rparr>))"

definition stable_stmt :: "(state \<Rightarrow> bool) \<Rightarrow> bool" where
  "stable_stmt I \<longleftrightarrow>
     stable_expr I \<and>
     (\<forall>s. I s \<longrightarrow> I (beginScope s)) \<and>
     (\<forall>s enc. I s \<longrightarrow> I (endScope enc s)) \<and>
     (\<forall>s nm. I s \<longrightarrow> I (addLocal nm s)) \<and>
     (\<forall>s. I s \<longrightarrow> I (markInitialized s)) \<and>
     (\<forall>s t. I s \<longrightarrow> I (initCompiler t s)) \<and>
     (\<forall>s. I s \<longrightarrow> I (updCurrent incrArity s)) \<and>
     (\<forall>s. I s \<longrightarrow> compilers s \<noteq> [] \<longrightarrow> I (endedFunction s)) \<and>
     (\<forall>s ccs. I s \<longrightarrow> I (s\<lparr>classCompilers := ccs\<rparr>)) \<and>
     (\<forall>s. I s \<longrightarrow> I (s\<lparr>parser := (parser s)\<lparr>panicMode := False\<rparr>\<rparr>))"

lemma stable_stmt_expr: "stable_stmt I \<Longrightarrow> stable_expr I"
  by (simp add: stable_stmt_def)

lemma kept_synchronize_loop:
  assumes "stable_expr I"
  shows "I s \<Longrightarrow> I (synchronize_loop s)"
proof (induction s rule: synchronize_loop.induct)
  case (1 s)
  show ?case
    using 1 stable_steps(4) [OF assms, of s]
    by (subst synchronize_loop.simps) auto
qed

lemma stable_stmt_steps:
  assumes "stable_stmt I" "I s"
  shows "I (beginScope s)" "I (endScope enc s)" "I (addLocal nm s)" "I (declareVariable s)"
    "I (markInitialized s)" "I (defineVariable enc g s)" "I (snd (parseVariable m s))"
    "I (initCompiler t s)" "I (updCurrent incrArity s)" "I (emitLoop enc k s)"
    "I (emitReturn enc s)" "I (emitUpvalues c s)" "I (synchronize s)"
    "I (s\<lparr>classCompilers := ccs\<rparr>)" "compilers s \<noteq> [] \<Longrightarrow> I (endedFunction s)"
proof -
  have st: "\<forall>s. I s \<longrightarrow> I (beginScope s)" "\<forall>s enc. I s \<longrightarrow> I (endScope enc s)"
    "\<forall>s nm. I s \<longrightarrow> I (addLocal nm s)" "\<forall>s. I s \<longrightarrow> I (markInitialized s)"
    "\<forall>s t. I s \<longrightarrow> I (initCompiler t s)" "\<forall>s. I s \<longrightarrow> I (updCurrent incrArity s)"
    "\<forall>s. I s \<longrightarrow> compilers s \<noteq> [] \<longrightarrow> I (endedFunction s)"
    "\<forall>s ccs. I s \<longrightarrow> I (s\<lparr>classCompilers := ccs\<rparr>)"
    "\<forall>s. I s \<longrightarrow> I (s\<lparr>parser := (parser s)\<lparr>panicMode := False\<rparr>\<rparr>)"
    using assms(1) unfolding stable_stmt_def by simp_all
  note se = stable_stmt_expr [OF assms(1)]
  note ss = stable_steps [OF se]
  note s = assms(2)
  show "I (beginScope s)" using st(1) s by (elim allE impE)
  show "I (endScope enc s)" using st(2) s by (elim allE impE)
  have al: "I (addLocal nm s)" if "I s" for s nm using st(3) that by (elim allE impE)
  show "I (addLocal nm s)" by (rule al [OF s])
  have mi: "I (markInitialized s)" if "I s" for s using st(4) that by (elim allE impE)
  show "I (markInitialized s)" by (rule mi [OF s])
  show "I (initCompiler t s)" using st(5) s by (elim allE impE)
  show "I (updCurrent incrArity s)" using st(6) s by (elim allE impE)
  show "I (s\<lparr>classCompilers := ccs\<rparr>)" using st(8) s by (elim allE impE)
  show "compilers s \<noteq> [] \<Longrightarrow> I (endedFunction s)" using st(7) s by (elim allE impE)
  have dl: "I (declareVariable_loop c nm k s)" if "I s" for c nm k s
    using that
  proof (induction k arbitrary: s)
    case 0
    then show ?case by simp
  next
    case (Suc k)
    show ?case using Suc.prems Suc.IH ss(2) by (simp add: Let_def)
  qed
  have dv: "I (declareVariable s)" if "I s" for s
    using that al dl by (simp add: declareVariable_def Let_def split: list.splits)
  show "I (declareVariable s)" by (rule dv [OF s])
  show "I (defineVariable enc g s)"
    using mi [OF s] ss(9) [OF s] by (simp add: defineVariable_def)
  have "I (declareVariable (consume TOKEN_IDENTIFIER m s))"
    using dv ss(5) [OF s] by simp
  then show "I (snd (parseVariable m s))"
    using ss(16) by (simp add: parseVariable_def Let_def)
  show "I (emitLoop enc k s)"
    using ss(8) [OF s] ss(2) ss(8) by (simp add: emitLoop_def Let_def)
  show "I (emitReturn enc s)"
    using ss(8) [OF s] ss(9) [OF s] ss(8) by (simp add: emitReturn_def Let_def)
  have "I (fold (\<lambda>i s. emitByte (index (upvalues c i))
                    (emitByte (if isLocal (upvalues c i) then 1 else 0) s)) xs s)" for xs
    using s
  proof (induction xs arbitrary: s)
    case Nil
    then show ?case by simp
  next
    case (Cons x xs)
    show ?case using Cons.prems ss(8) by (simp add: Cons.IH)
  qed
  then show "I (emitUpvalues c s)" by (simp add: emitUpvalues_def)
  have "I (s\<lparr>parser := (parser s)\<lparr>panicMode := False\<rparr>\<rparr>)" using st(9) s by (elim allE impE)
  then show "I (synchronize s)"
    unfolding synchronize_def by (rule kept_synchronize_loop [OF se])
qed

lemma stable_emit_steps:
  assumes "stable_expr I" "I s"
  shows "I (emitLoop enc k s)" "I (emitReturn enc s)" "I (emitUpvalues c s)"
proof -
  note ss = stable_steps [OF assms(1)]
  note s = assms(2)
  show "I (emitLoop enc k s)"
    using ss(8) [OF s] ss(2) ss(8) by (simp add: emitLoop_def Let_def)
  show "I (emitReturn enc s)"
    using ss(8) [OF s] ss(9) [OF s] ss(8) by (simp add: emitReturn_def Let_def)
  have "I (fold (\<lambda>i s. emitByte (index (upvalues c i))
                    (emitByte (if isLocal (upvalues c i) then 1 else 0) s)) xs s)" for xs
    using s
  proof (induction xs arbitrary: s)
    case Nil
    then show ?case by simp
  next
    case (Cons x xs)
    show ?case using Cons.prems ss(8) by (simp add: Cons.IH)
  qed
  then show "I (emitUpvalues c s)" by (simp add: emitUpvalues_def)
qed

lemma kept_expression:
  assumes "\<forall>p. preserves I (pp p)" "I s" "expression pp s = Some s'"
  shows "I s'"
  using assms by (auto simp: expression_def dest: preservesD)

lemma kept_printStatement:
  assumes "stable_expr I" "\<forall>p. preserves I (pp p)" "I s" "printStatement pp enc s = Some s'"
  shows "I s'"
proof -
  note ss = stable_steps [OF assms(1)]
  note ke = kept_expression [OF assms(2), rotated]
  show ?thesis
    using assms(3,4) by (auto simp: printStatement_def bind_eq_Some_conv ss dest!: ke)
qed

lemma kept_expressionStatement:
  assumes "stable_expr I" "\<forall>p. preserves I (pp p)" "I s"
    and "expressionStatement pp enc s = Some s'"
  shows "I s'"
proof -
  note ss = stable_steps [OF assms(1)]
  note ke = kept_expression [OF assms(2), rotated]
  show ?thesis
    using assms(3,4) by (auto simp: expressionStatement_def bind_eq_Some_conv ss dest!: ke)
qed

lemma kept_returnStatement:
  assumes "stable_expr I" "\<forall>p. preserves I (pp p)" "I s" "returnStatement pp enc s = Some s'"
  shows "I s'"
proof -
  note ss = stable_steps [OF assms(1)]
  note st = stable_emit_steps [OF assms(1)]
  note ke = kept_expression [OF assms(2), rotated]
  show ?thesis
    using assms(3,4)
    by (auto simp: returnStatement_def Let_def split_beta bind_eq_Some_conv ss st
          split: if_splits dest!: ke)
qed

lemma kept_varDeclaration:
  assumes "stable_stmt I" "\<forall>p. preserves I (pp p)" "I s" "varDeclaration pp enc s = Some s'"
  shows "I s'"
proof -
  note ss = stable_steps [OF stable_stmt_expr [OF assms(1)]]
  note st = stable_stmt_steps [OF assms(1)]
  note ke = kept_expression [OF assms(2), rotated]
  show ?thesis
    using assms(3,4)
    by (auto simp: varDeclaration_def Let_def split_beta bind_eq_Some_conv ss st
          split: if_splits dest!: ke)
qed

lemma kept_stmt:
  "preserves I stmt \<Longrightarrow> stmt s = Some s' \<Longrightarrow> I s \<Longrightarrow> I s'"
  by (auto simp: preserves_def)

lemma kept_ifStatement:
  assumes "stable_expr I" "\<forall>p. preserves I (pp p)" "preserves I stmt" "I s"
    and "ifStatement pp stmt enc s = Some s'"
  shows "I s'"
proof -
  note ss = stable_steps [OF assms(1)]
  note ke = kept_expression [OF assms(2), rotated]
  note ks = kept_stmt [OF assms(3)]
  show ?thesis
    using assms(4,5)
    by (auto simp: ifStatement_def Let_def split_beta bind_eq_Some_conv ss
          split: if_splits dest!: ke ks)
qed

lemma kept_whileStatement:
  assumes "stable_expr I" "\<forall>p. preserves I (pp p)" "preserves I stmt" "I s"
    and "whileStatement pp stmt enc s = Some s'"
  shows "I s'"
proof -
  note ss = stable_steps [OF assms(1)]
  note st = stable_emit_steps [OF assms(1)]
  note ke = kept_expression [OF assms(2), rotated]
  note ks = kept_stmt [OF assms(3)]
  show ?thesis
    using assms(4,5)
    by (auto simp: whileStatement_def Let_def split_beta bind_eq_Some_conv ss st
          split: if_splits dest!: ke ks)
qed

lemma kept_forStatement:
  assumes "stable_stmt I" "\<forall>p. preserves I (pp p)" "preserves I stmt" "I s"
    and "forStatement pp stmt enc s = Some s'"
  shows "I s'"
proof -
  note ss = stable_steps [OF stable_stmt_expr [OF assms(1)]]
  note st = stable_stmt_steps [OF assms(1)]
  note ke = kept_expression [OF assms(2), rotated]
  note ks = kept_stmt [OF assms(3)]
  note kv = kept_varDeclaration [OF assms(1,2), rotated]
  note kx = kept_expressionStatement [OF stable_stmt_expr [OF assms(1)] assms(2), rotated]
  let ?s2 = "consume TOKEN_LEFT_PAREN ''Expect '(' after 'for'.'' (beginScope s)"
  let ?s3 = "snd (match TOKEN_SEMICOLON ?s2)"
  have i3: "I ?s3" using assms(4) by (simp add: ss st)
  obtain s4 p6 p8 s9 where
    a: "(if fst (match TOKEN_SEMICOLON ?s2) then Some ?s3
         else (let (m2, a1) = match TOKEN_VAR ?s3
               in if m2 then varDeclaration pp enc a1
                  else expressionStatement pp enc a1)) = Some s4"
    and b: "(if \<not> fst (match TOKEN_SEMICOLON s4)
             then do {
               b1 \<leftarrow> expression pp (snd (match TOKEN_SEMICOLON s4));
               let b2 = consume TOKEN_SEMICOLON ''Expect ';' after loop condition.'' b1;
               let (j, b3) = emitJump (enc OP_JUMP_IF_FALSE) b2;
               Some (j, emitByte (enc OP_POP) b3)
             }
             else Some (-1, snd (match TOKEN_SEMICOLON s4))) = Some p6"
    and c: "(if \<not> fst (match TOKEN_RIGHT_PAREN (snd p6))
             then (let (bodyJump, c1) = emitJump (enc OP_JUMP) (snd (match TOKEN_RIGHT_PAREN (snd p6)));
                       incrementStart = count (currentChunk c1)
                   in do {
                     c2 \<leftarrow> expression pp c1;
                     let c3 = emitByte (enc OP_POP) c2;
                     let c4 = consume TOKEN_RIGHT_PAREN ''Expect ')' after for clause.'' c3;
                     let c5 = emitLoop enc (count (currentChunk s4)) c4;
                     Some (incrementStart, patchJump bodyJump c5)
                   })
             else Some (count (currentChunk s4), snd (match TOKEN_RIGHT_PAREN (snd p6)))) = Some p8"
    and d: "stmt (snd p8) = Some s9"
    and e: "Some (endScope enc
                   (if fst p6 \<noteq> -1
                    then emitByte (enc OP_POP) (patchJump (fst p6) (emitLoop enc (fst p8) s9))
                    else emitLoop enc (fst p8) s9)) = Some s'"
    using assms(5)
    unfolding forStatement_def Let_def split_beta bind_eq_Some_conv by blast
  have i4: "I s4"
    using a i3 by (auto simp: Let_def split_beta ss split: if_splits dest!: kv kx)
  have i6: "I (snd p6)"
    using b i4
    by (auto simp: Let_def split_beta bind_eq_Some_conv ss st split: if_splits dest!: ke)
  have i8: "I (snd p8)"
    using c i6
    by (auto simp: Let_def split_beta bind_eq_Some_conv ss st split: if_splits dest!: ke)
  have "I s9" using ks [OF d i8] .
  then show ?thesis using e by (auto simp: ss st)
qed

lemma kept_block_loop:
  assumes "preserves I decl"
  shows "I s \<Longrightarrow> block_loop n decl s = Some s' \<Longrightarrow> I s'"
proof (induction n arbitrary: s)
  case 0
  then show ?case by simp
next
  case (Suc n)
  then show ?case
    using kept_stmt [OF assms] by (auto simp: bind_eq_Some_conv split: if_splits)
qed

lemma kept_block:
  assumes "stable_expr I" "preserves I decl" "I s" "block n decl s = Some s'"
  shows "I s'"
proof -
  note ss = stable_steps [OF assms(1)]
  note kb = kept_block_loop [OF assms(2), rotated]
  show ?thesis
    using assms(3,4) by (auto simp: block_def bind_eq_Some_conv ss dest!: kb)
qed

lemma kept_parameter_loop:
  assumes "stable_stmt I"
  shows "I s \<Longrightarrow> parameter_loop n enc s = Some s' \<Longrightarrow> I s'"
proof (induction n arbitrary: s)
  case 0
  then show ?case by simp
next
  case (Suc n)
  note ss = stable_steps [OF stable_stmt_expr [OF assms]]
  note st = stable_stmt_steps [OF assms]
  let ?s1 = "updCurrent incrArity s"
  let ?s2 = "if currentArity ?s1 > 255
             then errorAtCurrent ''Can't have more than 255 parameters.'' ?s1 else ?s1"
  let ?s3 = "snd (parseVariable ''Expect parameter name.'' ?s2)"
  let ?s4 = "defineVariable enc (fst (parseVariable ''Expect parameter name.'' ?s2)) ?s3"
  let ?s5 = "snd (match TOKEN_COMMA ?s4)"
  have "I ?s2" using Suc.prems(1) by (simp add: ss st)
  then have "I ?s3" by (rule st)
  then have "I ?s4" by (rule st)
  then have i5: "I ?s5" by (rule ss)
  show ?case
  proof (cases "fst (match TOKEN_COMMA ?s4)")
    case True
    then have "parameter_loop n enc ?s5 = Some s'"
      using Suc.prems(2) by (simp add: Let_def split_beta)
    then show ?thesis using Suc.IH [OF i5] by simp
  next
    case False
    then have "s' = ?s5" using Suc.prems(2) by (simp add: Let_def split_beta)
    then show ?thesis using i5 by simp
  qed
qed

lemma endCompiler_endedFunction:
  assumes "endCompiler enc s = Some (c, s7)"
  shows "compilers (emitReturn enc s) \<noteq> [] \<and>
         snd (makeConstant (OBJ_FUNCTION (func c)) s7) =
           (if 256 \<le> length (constants (currentChunk s7))
            then error ''Too many constants in one chunks.'' (endedFunction (emitReturn enc s))
            else endedFunction (emitReturn enc s))"
  using assms
  by (cases "compilers (emitReturn enc s)")
     (auto simp: endCompiler_def Let_def makeConstant_cases endedFunction_def)

lemma kept_compileFunction:
  assumes "stable_stmt I" "preserves I decl" "I s"
    and "compileFunction n decl enc t s = Some s'"
  shows "I s'"
proof -
  note ss = stable_steps [OF stable_stmt_expr [OF assms(1)]]
  note st = stable_stmt_steps [OF assms(1)]
  let ?s2 = "consume TOKEN_LEFT_PAREN ''Expect '(' after function name.''
               (beginScope (initCompiler t s))"
  have i2: "I ?s2" using assms(3) by (simp add: ss st)
  obtain s3 s6 c s7 where
    a: "(if \<not> check TOKEN_RIGHT_PAREN ?s2 then parameter_loop n enc ?s2 else Some ?s2) = Some s3"
    and b: "block n decl
              (consume TOKEN_LEFT_BRACE ''Expect '{' before function body.''
                 (consume TOKEN_RIGHT_PAREN ''Expect ')' after parameters.'' s3)) = Some s6"
    and c: "endCompiler enc s6 = Some (c, s7)"
    and d: "s' = emitUpvalues c
                   (emitBytes (enc OP_CLOSURE) (fst (makeConstant (OBJ_FUNCTION (func c)) s7))
                      (snd (makeConstant (OBJ_FUNCTION (func c)) s7)))"
    using assms(4)
    by (auto simp: compileFunction_def Let_def split_beta bind_eq_Some_conv)
  have i3: "I s3"
    using a i2 kept_parameter_loop [OF assms(1), of ?s2 n enc s3] by (auto split: if_splits)
  have i6: "I s6"
    using kept_block [OF stable_stmt_expr [OF assms(1)] assms(2) _ b] i3 by (simp add: ss)
  have "I (emitReturn enc s6)" using i6 by (rule st)
  then have "I (snd (makeConstant (OBJ_FUNCTION (func c)) s7))"
    using endCompiler_endedFunction [OF c] by (simp add: st ss)
  then show ?thesis by (simp add: d ss st)
qed

lemma kept_compileMethod:
  assumes "stable_stmt I" "preserves I decl" "I s" "compileMethod n decl enc s = Some s'"
  shows "I s'"
proof -
  note ss = stable_steps [OF stable_stmt_expr [OF assms(1)]]
  note kf = kept_compileFunction [OF assms(1,2), rotated]
  show ?thesis
    using assms(3,4)
    by (auto simp: compileMethod_def Let_def split_beta bind_eq_Some_conv ss dest!: kf)
qed

lemma kept_method_loop:
  assumes "stable_stmt I" "preserves I decl"
  shows "I s \<Longrightarrow> method_loop n decl enc s = Some s' \<Longrightarrow> I s'"
proof (induction n arbitrary: s)
  case 0
  then show ?case by simp
next
  case (Suc n)
  note km = kept_compileMethod [OF assms, rotated]
  show ?case
    using Suc.prems
    by (auto simp: bind_eq_Some_conv split: if_splits dest!: km intro: Suc.IH)
qed

lemma kept_funDeclaration:
  assumes "stable_stmt I" "preserves I decl" "I s" "funDeclaration n decl enc s = Some s'"
  shows "I s'"
proof -
  note ss = stable_steps [OF stable_stmt_expr [OF assms(1)]]
  note st = stable_stmt_steps [OF assms(1)]
  note kf = kept_compileFunction [OF assms(1,2), rotated]
  show ?thesis
    using assms(3,4)
    by (auto simp: funDeclaration_def Let_def split_beta bind_eq_Some_conv ss st dest!: kf)
qed

lemma kept_classDeclaration:
  assumes "stable_stmt I" "\<forall>p. preserves I (pp p)" "preserves I decl" "I s"
    and "classDeclaration n pp decl enc s = Some s'"
  shows "I s'"
proof -
  note se = stable_stmt_expr [OF assms(1)]
  note ss = stable_steps [OF se]
  note st = stable_stmt_steps [OF assms(1)]
  note kn = kept_namedVariable [OF se assms(2), rotated]
  note km = kept_method_loop [OF assms(1,3), rotated]
  show ?thesis
    using assms(4,5)
    by (auto simp: classDeclaration_def variable_def Let_def split_beta bind_eq_Some_conv ss st
          split: if_splits dest!: kn km)
qed

lemma kept_statement:
  assumes "stable_stmt I" "\<forall>p. preserves I (pp p)" "preserves I decl"
  shows "I s \<Longrightarrow> statement n pp decl enc s = Some s' \<Longrightarrow> I s'"
proof (induction n arbitrary: s s')
  case 0
  then show ?case by simp
next
  case (Suc n)
  note ss = stable_steps [OF stable_stmt_expr [OF assms(1)]]
  note st = stable_stmt_steps [OF assms(1)]
  have ps: "preserves I (statement n pp decl enc)"
    using Suc.IH by (auto simp: preserves_def)
  note se = stable_stmt_expr [OF assms(1)]
  note k1 = kept_printStatement [OF se assms(2), rotated]
    kept_block [OF se assms(3), rotated]
    kept_ifStatement [OF se assms(2) ps, rotated]
    kept_returnStatement [OF se assms(2), rotated]
    kept_whileStatement [OF se assms(2) ps, rotated]
    kept_forStatement [OF assms(1,2) ps, rotated]
    kept_expressionStatement [OF se assms(2), rotated]
  show ?case
    using Suc.prems
    by (auto simp: Let_def split_beta bind_eq_Some_conv ss st split: if_splits dest!: k1)
qed

theorem kept_compileDeclaration:
  assumes "stable_stmt I"
  shows "I s \<Longrightarrow> compileDeclaration n enc s = Some s' \<Longrightarrow> I s'"
proof (induction n arbitrary: s s')
  case 0
  then show ?case by simp
next
  case (Suc n)
  note se = stable_stmt_expr [OF assms]
  note ss = stable_steps [OF se]
  note st = stable_stmt_steps [OF assms]
  have pp: "\<forall>p. preserves I (parsePrecendence n enc p)"
    using kept_parsePrecendence [OF se] by (auto simp: preserves_def)
  have pd: "preserves I (compileDeclaration n enc)"
    using Suc.IH by (auto simp: preserves_def)
  note k1 = kept_classDeclaration [OF assms pp pd, rotated]
    kept_varDeclaration [OF assms pp, rotated]
    kept_funDeclaration [OF assms pd, rotated]
    kept_statement [OF assms pp pd, rotated]
  show ?case
    using Suc.prems
    by (auto simp: Let_def split_beta bind_eq_Some_conv ss st split: if_splits dest!: k1)
qed

lemma kept_compile_loop:
  assumes "stable_stmt I"
  shows "I s \<Longrightarrow> compile_loop n enc s = Some s' \<Longrightarrow> I s'"
proof (induction n arbitrary: s)
  case 0
  then show ?case by simp
next
  case (Suc n)
  note ss = stable_steps [OF stable_stmt_expr [OF assms]]
  note kd = kept_compileDeclaration [OF assms, rotated]
  show ?case
    using Suc.prems
    by (auto simp: Let_def split_beta bind_eq_Some_conv ss split: if_splits
          dest!: kd intro: Suc.IH)
qed

section \<open>Every chunk keeps code and lines of equal length\<close>

text \<open>
  The chunks that exist while the compiler runs are the chunks of the functions under
  construction, one for each compiler of the chain, and the chunks of the functions
  that are already stored in a constant pool of one of them. \<open>allChunks_ok\<close> says of a
  chunk that it and every chunk below it in its constant pool is well formed.
\<close>

fun valueChunks_ok :: "Value \<Rightarrow> bool"
  and functionChunks_ok :: "ObjFunction \<Rightarrow> bool"
  and allChunks_ok :: "Chunk \<Rightarrow> bool" where
  "valueChunks_ok (NUMBER_VAL x) = True"
| "valueChunks_ok (OBJ_STRING x) = True"
| "valueChunks_ok (OBJ_FUNCTION f) = functionChunks_ok f"
| "functionChunks_ok (ObjFunction a u ch nm) = allChunks_ok ch"
| "allChunks_ok (Chunk n cap cd ls ks) =
     (chunk_ok (Chunk n cap cd ls ks) \<and> list_all valueChunks_ok ks)"

definition chunks_ok :: "state \<Rightarrow> bool" where
  "chunks_ok s = list_all (\<lambda>c. allChunks_ok (chunk (func c))) (compilers s)"

lemma allChunks_ok_iff:
  "allChunks_ok ch \<longleftrightarrow> chunk_ok ch \<and> list_all valueChunks_ok (constants ch)"
  by (cases ch) simp

lemma functionChunks_ok_iff: "functionChunks_ok f \<longleftrightarrow> allChunks_ok (chunk f)"
  by (cases f) simp

lemma allChunks_ok_equal_length:
  "allChunks_ok ch \<Longrightarrow> length (code ch) = length (lines ch) \<and>
     length (emitted ch) = length (emittedLines ch)"
  by (auto simp: allChunks_ok_iff chunk_ok_def emitted_def emittedLines_def)

lemma allChunks_ok_initChunk: "allChunks_ok initChunk"
  by (simp add: allChunks_ok_iff chunk_ok_initChunk) (simp add: initChunk_def)

lemma allChunks_ok_writeChunk: "allChunks_ok ch \<Longrightarrow> allChunks_ok (writeChunk ch b l)"
  by (simp add: allChunks_ok_iff writeChunk_ok constants_writeChunk)

lemma allChunks_ok_addConstant:
  "allChunks_ok ch \<Longrightarrow> valueChunks_ok v \<Longrightarrow> allChunks_ok (snd (addConstant ch v))"
  by (auto simp: allChunks_ok_iff addConstant_def chunk_ok_def Let_def)

lemma chunks_ok_same:
  "map (\<lambda>c. chunk (func c)) (compilers s') = map (\<lambda>c. chunk (func c)) (compilers s) \<Longrightarrow>
   chunks_ok s' = chunks_ok s"
  unfolding chunks_ok_def list_all_iff
  by (metis (mono_tags, lifting) image_iff list.set_map)

lemma chunks_ok_setCurrentChunk:
  "chunks_ok s \<Longrightarrow> allChunks_ok ch \<Longrightarrow> chunks_ok (setCurrentChunk ch s)"
  by (auto simp: chunks_ok_def setCurrentChunk_def setChunk_def split: list.splits)

lemma chunks_ok_currentChunk: "chunks_ok s \<Longrightarrow> allChunks_ok (currentChunk s)"
  by (auto simp: chunks_ok_def currentChunk_def allChunks_ok_initChunk split: list.splits)

lemma chunks_ok_updCurrent:
  "(\<And>c. chunk (func (f c)) = chunk (func c)) \<Longrightarrow> chunks_ok (updCurrent f s) = chunks_ok s"
  by (auto simp: chunks_ok_def updCurrent_def split: list.splits)

lemma chunks_ok_errorAt: "chunks_ok (errorAt t m s) = chunks_ok s"
  by (simp add: chunks_ok_def errorAt_frame)

lemma chunks_ok_error: "chunks_ok (error m s) = chunks_ok s"
  by (simp add: error_def chunks_ok_errorAt)

lemma chunks_ok_emitByte: "chunks_ok s \<Longrightarrow> chunks_ok (emitByte b s)"
  by (simp add: emitByte_def chunks_ok_setCurrentChunk chunks_ok_currentChunk
        allChunks_ok_writeChunk)

lemma chunks_ok_patchJump: "chunks_ok s \<Longrightarrow> chunks_ok (patchJump off s)"
proof -
  assume a: "chunks_ok s"
  let ?s1 = "if count (currentChunk s) - off - 2 > UINT16_MAX
             then error ''Cannot jump this far !'' s else s"
  have b: "chunks_ok ?s1" using a by (simp add: chunks_ok_error)
  then have "allChunks_ok (currentChunk ?s1)" by (rule chunks_ok_currentChunk)
  then have "allChunks_ok (Chunk (count (currentChunk ?s1)) (capacity (currentChunk ?s1))
                 ((code (currentChunk ?s1))[nat off := x, nat (off + 1) := y])
                 (lines (currentChunk ?s1)) (constants (currentChunk ?s1)))" for x y
    by (simp add: allChunks_ok_iff chunk_ok_def)
  then show ?thesis
    using b by (simp add: patchJump_def Let_def chunks_ok_setCurrentChunk)
qed

lemma chunks_ok_withConstant:
  "chunks_ok s \<Longrightarrow> valueChunks_ok v \<Longrightarrow> chunks_ok (withConstant v s)"
  by (simp add: withConstant_def chunks_ok_setCurrentChunk chunks_ok_currentChunk
        allChunks_ok_addConstant)

lemma addUpvalue_chunk:
  "chunk (func (fst (snd (addUpvalue c idx isLoc s)))) = chunk (func c)"
  by (auto simp: addUpvalue_def Let_def setUpvalueCount_def split: option.splits)

lemma resolveUpvalue_chunks:
  "map (\<lambda>c. chunk (func c)) (fst (snd (resolveUpvalue cs nm s))) = map (\<lambda>c. chunk (func c)) cs"
proof (induction cs nm s rule: resolveUpvalue.induct)
  case (1 nm s)
  then show ?case by simp
next
  case (2 compiler nm s)
  then show ?case by simp
next
  case (3 compiler enclosing rest nm s)
  show ?case
    using 3
    by (cases "resolveLocal enclosing nm s") (auto simp: Let_def split_beta addUpvalue_chunk)
qed

lemma chunks_ok_resolved: "chunks_ok (resolved nm s) = chunks_ok s"
  by (rule chunks_ok_same) (simp add: resolved_def split_beta resolveUpvalue_chunks)

lemma chunks_ok_endScope_loop: "chunks_ok s \<Longrightarrow> chunks_ok (endScope_loop enc s)"
proof (induction enc s rule: endScope_loop.induct)
  case (1 enc s)
  show ?case
  proof (cases "compilers s")
    case Nil
    then show ?thesis using 1(2) by (subst endScope_loop.simps) simp
  next
    case (Cons c cs)
    show ?thesis
    proof (cases "localCount c > 0 \<and> depth (topLocal c) > scopeDepth c")
      case True
      have "chunks_ok (updCurrent (\<lambda>c. c\<lparr>localCount := localCount c - 1\<rparr>)
                 (emitByte (if isCaptured (topLocal c) then enc OP_CLOSE_UPVALUE
                            else enc OP_POP) s))"
        using 1(2) by (simp add: chunks_ok_updCurrent chunks_ok_emitByte)
      then show ?thesis
        using 1(1) [OF Cons True] Cons True by (subst endScope_loop.simps) simp
    next
      case False
      then show ?thesis using 1(2) Cons by (subst endScope_loop.simps) auto
    qed
  qed
qed

lemma chunks_ok_initCompiler: "chunks_ok s \<Longrightarrow> chunks_ok (initCompiler t s)"
  by (simp add: chunks_ok_def initCompiler_def Let_def newFunction_def allChunks_ok_initChunk)

lemma chunks_ok_endedFunction: "chunks_ok s \<Longrightarrow> chunks_ok (endedFunction s)"
proof (cases "compilers s")
  case Nil
  assume "chunks_ok s"
  then show ?thesis using Nil by (simp add: endedFunction_def)
next
  case (Cons c cs)
  assume a: "chunks_ok s"
  then have "chunks_ok (s\<lparr>compilers := cs\<rparr>)" "valueChunks_ok (OBJ_FUNCTION (func c))"
    using Cons by (simp_all add: chunks_ok_def functionChunks_ok_iff)
  then show ?thesis
    using Cons by (simp add: endedFunction_def chunks_ok_withConstant)
qed

lemma stable_stmt_chunks_ok: "stable_stmt chunks_ok"
  unfolding stable_stmt_def stable_expr_def
proof (intro conjI allI impI)
  fix s :: state and nm
  assume "chunks_ok s"
  then show "chunks_ok (addLocal nm s)"
    by (auto simp: addLocal_def error_frame chunks_ok_def split: list.splits)
next
  fix s :: state
  assume "chunks_ok s"
  then show "chunks_ok (markInitialized s)"
    by (auto simp: markInitialized_def chunks_ok_def split: list.splits)
next
  fix s :: state and enc
  assume "chunks_ok s"
  then show "chunks_ok (endScope enc s)"
    by (simp add: endScope_def chunks_ok_endScope_loop chunks_ok_updCurrent)
qed (simp_all add: chunks_ok_errorAt chunks_ok_emitByte chunks_ok_patchJump
       chunks_ok_withConstant chunks_ok_resolved chunks_ok_initCompiler
       chunks_ok_endedFunction beginScope_def chunks_ok_updCurrent incrArity_def
       chunks_ok_def [of "advance s" for s] chunks_ok_def [of "s\<lparr>classCompilers := ccs\<rparr>" for s ccs]
       chunks_ok_def [of "s\<lparr>parser := p\<rparr>" for s p] advance_frame,
     simp_all add: chunks_ok_def)
lemma chunks_ok_endCompiler:
  assumes "chunks_ok s" "endCompiler enc s = Some (c, s')"
  shows "chunks_ok s' \<and> functionChunks_ok (func c)"
proof -
  have a: "chunks_ok (emitReturn enc s)"
    using assms(1) by (rule stable_stmt_steps [OF stable_stmt_chunks_ok])
  show ?thesis
    using assms(2) a
    by (cases "compilers (emitReturn enc s)")
       (auto simp: endCompiler_def Let_def chunks_ok_def functionChunks_ok_iff)
qed

lemma chunks_ok_compile:
  assumes "compile n enc source = Some (r, s')"
  shows "chunks_ok s' \<and> (\<forall>f. r = Some f \<longrightarrow> functionChunks_ok f)"
proof -
  let ?s1 = "initCompiler TYPE_SCRIPT (initScanner source)"
  let ?s3 = "advance (?s1\<lparr>parser := (parser ?s1)\<lparr>hadError := False, panicMode := False\<rparr>\<rparr>)"
  obtain s4 c where a: "compile_loop n enc ?s3 = Some s4"
    and b: "endCompiler enc s4 = Some (c, s')"
    and c: "r = (if hadError (parser s') then None else Some (func c))"
    using assms by (auto simp: compile_def Let_def bind_eq_Some_conv)
  have "chunks_ok (initScanner source)"
    by (simp add: chunks_ok_def initScanner_def)
  then have "chunks_ok ?s1" by (rule chunks_ok_initCompiler)
  then have "chunks_ok (?s1\<lparr>parser := (parser ?s1)\<lparr>hadError := False, panicMode := False\<rparr>\<rparr>)"
    by (simp add: chunks_ok_def)
  then have "chunks_ok ?s3"
    by (rule stable_steps [OF stable_stmt_expr [OF stable_stmt_chunks_ok]])
  then have "chunks_ok s4"
    using a by (rule kept_compile_loop [OF stable_stmt_chunks_ok])
  then show ?thesis
    using chunks_ok_endCompiler [OF _ b] c by auto
qed

lemma allChunks_ok_nested:
  "allChunks_ok ch \<Longrightarrow> OBJ_FUNCTION f \<in> set (constants ch) \<Longrightarrow> allChunks_ok (chunk f)"
proof -
  assume a: "allChunks_ok ch" and b: "OBJ_FUNCTION f \<in> set (constants ch)"
  from a have "\<forall>v \<in> set (constants ch). valueChunks_ok v"
    by (simp add: allChunks_ok_iff list_all_iff)
  with b have "valueChunks_ok (OBJ_FUNCTION f)" by blast
  then show ?thesis by (simp add: functionChunks_ok_iff)
qed

text \<open>
  Claim C5. Every chunk has a code array and a lines array of equal length at every
  point of the compilation. A fresh chunk is well formed, with nothing emitted.
  \<open>writeChunk\<close> keeps a chunk well formed: it adds one to \<open>count\<close>, appends the byte to
  the code in use and the line to the lines in use, and leaves both arrays with the same
  number of cells, so that they grow together. Every step of the compiler keeps the
  chunks of all the compilers of the chain well formed, together with the chunks of the
  functions in their constant pools (\<open>stable_stmt chunks_ok\<close>), and so do
  \<open>parsePrecendence\<close>, \<open>compileDeclaration\<close> and \<open>compile\<close>, whose result is a function
  with a well-formed chunk. In a well-formed chunk the two arrays have the same length,
  as have their parts in use, and the chunks of the functions of its constant pool are
  well formed.
\<close>

theorem code_and_lines_in_lockstep:
  "(chunk_ok initChunk \<and> emitted initChunk = [] \<and> emittedLines initChunk = []) \<and>
   (chunk_ok ch \<longrightarrow>
      chunk_ok (writeChunk ch b l) \<and>
      count (writeChunk ch b l) = count ch + 1 \<and>
      emitted (writeChunk ch b l) = emitted ch @ [b] \<and>
      emittedLines (writeChunk ch b l) = emittedLines ch @ [l] \<and>
      length (code (writeChunk ch b l)) = length (lines (writeChunk ch b l))) \<and>
   stable_stmt chunks_ok \<and>
   (chunks_ok s \<and> parsePrecendence n enc prec s = Some s' \<longrightarrow> chunks_ok s') \<and>
   (chunks_ok t \<and> compileDeclaration n enc t = Some t' \<longrightarrow> chunks_ok t') \<and>
   (compile n enc source = Some (r, u) \<longrightarrow>
      chunks_ok u \<and> (\<forall>f. r = Some f \<longrightarrow> allChunks_ok (chunk f))) \<and>
   (chunks_ok u \<longrightarrow> (\<forall>c \<in> set (compilers u). allChunks_ok (chunk (func c)))) \<and>
   (allChunks_ok k \<longrightarrow>
      length (code k) = length (lines k) \<and>
      length (emitted k) = length (emittedLines k) \<and>
      (\<forall>f. OBJ_FUNCTION f \<in> set (constants k) \<longrightarrow> allChunks_ok (chunk f)))"
proof -
  have a: "chunk_ok initChunk \<and> emitted initChunk = [] \<and> emittedLines initChunk = []"
    using chunk_ok_initChunk by (simp add: emitted_def emittedLines_def initChunk_def)
  have b: "chunk_ok ch \<longrightarrow>
      chunk_ok (writeChunk ch b l) \<and>
      count (writeChunk ch b l) = count ch + 1 \<and>
      emitted (writeChunk ch b l) = emitted ch @ [b] \<and>
      emittedLines (writeChunk ch b l) = emittedLines ch @ [l] \<and>
      length (code (writeChunk ch b l)) = length (lines (writeChunk ch b l))"
  proof
    assume ok: "chunk_ok ch"
    then have "chunk_ok (writeChunk ch b l)" by (rule writeChunk_ok)
    then have "length (code (writeChunk ch b l)) = length (lines (writeChunk ch b l))"
      by (simp add: chunk_ok_def)
    then show "chunk_ok (writeChunk ch b l) \<and>
      count (writeChunk ch b l) = count ch + 1 \<and>
      emitted (writeChunk ch b l) = emitted ch @ [b] \<and>
      emittedLines (writeChunk ch b l) = emittedLines ch @ [l] \<and>
      length (code (writeChunk ch b l)) = length (lines (writeChunk ch b l))"
      using ok
      by (simp add: writeChunk_ok count_writeChunk emitted_writeChunk emittedLines_writeChunk)
  qed
  note c = stable_stmt_chunks_ok
  have d: "chunks_ok s \<and> parsePrecendence n enc prec s = Some s' \<longrightarrow> chunks_ok s'"
    using kept_parsePrecendence [OF stable_stmt_expr [OF c], of s n enc prec s'] by blast
  have e: "chunks_ok t \<and> compileDeclaration n enc t = Some t' \<longrightarrow> chunks_ok t'"
    using kept_compileDeclaration [OF c, of t n enc t'] by blast
  have f: "compile n enc source = Some (r, u) \<longrightarrow>
      chunks_ok u \<and> (\<forall>f. r = Some f \<longrightarrow> allChunks_ok (chunk f))"
    using chunks_ok_compile [of n enc source r u] by (simp add: functionChunks_ok_iff)
  have g: "chunks_ok u \<longrightarrow> (\<forall>c \<in> set (compilers u). allChunks_ok (chunk (func c)))"
    by (simp add: chunks_ok_def list_all_iff)
  have h: "allChunks_ok k \<longrightarrow>
      length (code k) = length (lines k) \<and>
      length (emitted k) = length (emittedLines k) \<and>
      (\<forall>f. OBJ_FUNCTION f \<in> set (constants k) \<longrightarrow> allChunks_ok (chunk f))"
    using allChunks_ok_equal_length [of k] allChunks_ok_nested [of k] by blast
  from a b c d e f g h show ?thesis by blast
qed
text \<open>\<open>fun f() {}\<close>, a program whose chunk holds a function in its constant pool.\<close>

definition fun_f_source :: "Token list" where
  "fun_f_source =
     [tok TOKEN_FUN ''fun'' '' f() {}'', tok TOKEN_IDENTIFIER ''f'' ''() {}'',
      tok TOKEN_LEFT_PAREN ''('' '') {}'', tok TOKEN_RIGHT_PAREN '')'' '' {}'',
      tok TOKEN_LEFT_BRACE ''{'' ''}'', tok TOKEN_RIGHT_BRACE ''}'' []]"

definition started :: "Token list \<Rightarrow> state" where
  "started source = advance (initCompiler TYPE_SCRIPT (initScanner source))"

lemma chunks_ok_started: "chunks_ok (started source)"
proof -
  have "chunks_ok (initScanner source)"
    by (simp add: chunks_ok_def initScanner_def)
  then have "chunks_ok (initCompiler TYPE_SCRIPT (initScanner source))"
    by (rule chunks_ok_initCompiler)
  then show ?thesis
    unfolding started_def by (rule stable_steps [OF stable_stmt_expr [OF stable_stmt_chunks_ok]])
qed

lemma started_number:
  "\<exists>s'. parsePrecendence (Suc (Suc 0)) positional PREC_ASSIGNMENT
          (started [tok TOKEN_NUMBER ''3'' []]) = Some s'"
  by (simp add: started_def initScanner_def tok_def compiler_defs Let_def positional_def)

lemma started_var_a:
  "\<exists>t'. compileDeclaration (Suc (Suc (Suc (Suc 0)))) positional (started var_a_source) = Some t'"
  by (simp add: started_def initScanner_def var_a_source_def tok_def compiler_defs Let_def
        positional_def)

lemma compile_fun_f:
  "\<exists>f g u. compile (Suc (Suc (Suc (Suc 0)))) positional fun_f_source = Some (Some f, u) \<and>
     constants (chunk f) = [OBJ_STRING ''f'', OBJ_FUNCTION g]"
  by (simp add: fun_f_source_def initScanner_def tok_def compiler_defs Let_def positional_def)

theorem code_and_lines_in_lockstep_witness:
  "chunk_ok initChunk \<and>
   chunk_ok (writeChunk initChunk 7 1) \<and>
   emitted (writeChunk initChunk 7 1) = [7] \<and>
   emittedLines (writeChunk initChunk 7 1) = [1] \<and>
   (\<exists>s'. parsePrecendence (Suc (Suc 0)) positional PREC_ASSIGNMENT
            (started [tok TOKEN_NUMBER ''3'' []]) = Some s' \<and> chunks_ok s') \<and>
   (\<exists>t'. compileDeclaration (Suc (Suc (Suc (Suc 0)))) positional (started var_a_source) = Some t' \<and>
          chunks_ok t') \<and>
   (\<exists>f g u. compile (Suc (Suc (Suc (Suc 0)))) positional fun_f_source = Some (Some f, u) \<and>
      chunks_ok u \<and> allChunks_ok (chunk f) \<and>
      length (code (chunk f)) = length (lines (chunk f)) \<and>
      OBJ_FUNCTION g \<in> set (constants (chunk f)) \<and> allChunks_ok (chunk g) \<and>
      length (code (chunk g)) = length (lines (chunk g)))"
proof -
  obtain s' where p: "parsePrecendence (Suc (Suc 0)) positional PREC_ASSIGNMENT
      (started [tok TOKEN_NUMBER ''3'' []]) = Some s'"
    using started_number by blast
  obtain t' where d: "compileDeclaration (Suc (Suc (Suc (Suc 0)))) positional
      (started var_a_source) = Some t'"
    using started_var_a by blast
  obtain f g u where c: "compile (Suc (Suc (Suc (Suc 0)))) positional fun_f_source = Some (Some f, u)"
    and k: "constants (chunk f) = [OBJ_STRING ''f'', OBJ_FUNCTION g]"
    using compile_fun_f by blast
  note A = code_and_lines_in_lockstep [where ch = initChunk and b = 7 and l = 1
      and s = "started [tok TOKEN_NUMBER ''3'' []]" and s' = s' and n = "Suc (Suc 0)"
      and enc = positional and prec = PREC_ASSIGNMENT]
  note B = code_and_lines_in_lockstep [where t = "started var_a_source" and t' = t'
      and n = "Suc (Suc (Suc (Suc 0)))" and enc = positional and source = fun_f_source
      and r = "Some f" and u = u and k = "chunk f"]
  note C = code_and_lines_in_lockstep [where k = "chunk g"]
  have w: "chunk_ok initChunk" "chunk_ok (writeChunk initChunk 7 1)"
    "emitted (writeChunk initChunk 7 1) = [7]" "emittedLines (writeChunk initChunk 7 1) = [1]"
    using A by simp_all
  have s: "chunks_ok s'"
    using A p chunks_ok_started by blast
  have t: "chunks_ok t'"
    using B d chunks_ok_started by blast
  have u: "chunks_ok u" "allChunks_ok (chunk f)"
    using B c by simp_all
  then have f: "length (code (chunk f)) = length (lines (chunk f))" "allChunks_ok (chunk g)"
    using B k by simp_all
  then have g: "length (code (chunk g)) = length (lines (chunk g))"
    using C by simp
  show ?thesis
    using w p s d t c u f g k by auto
qed

section \<open>Scope depth zero and the locals\<close>


















































































end
